theory Spec2Isabelle
  imports Complex_Main
begin

section \<open>Configuration constants of \<^verbatim>\<open>pc_plotter.py\<close>\<close>

text \<open>
  Wall-clock readings of \<^verbatim>\<open>time.time()\<close> and the measurements are Python floats; the
  three plot arrays hold \<^verbatim>\<open>numpy.float32\<close>. Both are modelled as \<^typ>\<open>real\<close>: the
  arithmetic of the store is exact here, rounding is not part of the model.
\<close>

definition MAX_POINTS :: nat where
  "MAX_POINTS = 200"

definition GUI_UPDATE_INTERVAL_MS :: nat where
  "GUI_UPDATE_INTERVAL_MS = 50"

definition DATA_COLLECTION_INTERVAL_MS :: nat where
  "DATA_COLLECTION_INTERVAL_MS = 100"

text \<open>The local \<^verbatim>\<open>interval_s = DATA_COLLECTION_INTERVAL_MS / 1000.0\<close> of \<^verbatim>\<open>update_plots\<close>.\<close>

definition interval_s :: real where
  "interval_s = real DATA_COLLECTION_INTERVAL_MS / 1000"

section \<open>The sample dictionary and the plotter's store\<close>

text \<open>The dictionary built by \<^verbatim>\<open>parse_data\<close>: ten fixed keys, four floats and six strings.\<close>

record sample =
  P :: real
  T :: real
  MV :: real
  SH :: real
  F :: string
  M :: string
  ESD :: string
  ESTADO :: string
  RELIEF :: string
  PURGE :: string

text \<open>
  The attributes of \<^verbatim>\<open>PlotterApp\<close> that hold data (lines 177 to 188). Python's
  \<^verbatim>\<open>None\<close> is \<^const>\<open>None\<close>. The widgets (labels, axes, canvas) are outside the state; what
  a tick hands to them is the \<open>frame\<close> returned by \<open>update_plots\<close>.
\<close>

record app =
  first_data_time :: "real option"
  x_data :: "real list"
  y1_data :: "real list"
  y2_data :: "real list"
  data_index :: nat
  last_p :: "real option"
  last_t :: "real option"
  last_update_time :: "real option"
  plot_dirty :: bool

text \<open>The state left by \<^verbatim>\<open>PlotterApp.__init__\<close>.\<close>

definition init_app :: app where
  "init_app =
     \<lparr>first_data_time = None,
      x_data = replicate MAX_POINTS 0,
      y1_data = replicate MAX_POINTS 0,
      y2_data = replicate MAX_POINTS 0,
      data_index = 0,
      last_p = None,
      last_t = None,
      last_update_time = None,
      plot_dirty = False\<rparr>"

text \<open>
  The three arrays are created with \<^const>\<open>MAX_POINTS\<close> cells and never rebound, so every
  index \<open>data_index mod MAX_POINTS\<close> is in range; the list model records the size as
  a well-formedness predicate.
\<close>

definition wf_app :: "app \<Rightarrow> bool" where
  "wf_app s \<longleftrightarrow>
     length (x_data s) = MAX_POINTS \<and> length (y1_data s) = MAX_POINTS
     \<and> length (y2_data s) = MAX_POINTS"

section \<open>\<^verbatim>\<open>PlotterApp.receive_data\<close>\<close>

text \<open>
  Lines 229 to 256. The clock reading \<^verbatim>\<open>time.time()\<close> is the argument
  \<open>current_real\<close>. The call of \<^verbatim>\<open>update_labels_immediate\<close> only touches label widgets
  and catches its own exceptions, so it leaves the state alone.
\<close>

definition receive_data :: "app \<Rightarrow> sample \<Rightarrow> real \<Rightarrow> app" where
  "receive_data s data current_real =
     (let s1 = (if first_data_time s = None
                then s\<lparr>first_data_time := Some current_real\<rparr> else s);
          graph_t = current_real - the (first_data_time s1);
          p = P data;
          t = T data;
          idx = data_index s1 mod MAX_POINTS
      in s1\<lparr>x_data := (x_data s1)[idx := graph_t],
            y1_data := (y1_data s1)[idx := p],
            y2_data := (y2_data s1)[idx := t],
            data_index := data_index s1 + 1,
            last_p := Some p,
            last_t := Some t,
            last_update_time := Some current_real,
            plot_dirty := True\<rparr>)"

section \<open>\<^verbatim>\<open>PlotterApp.update_plots\<close>\<close>

text \<open>
  One iteration of the loop of lines 270 to 280, for the current \<open>expected_next\<close>. The
  statements run in the source's order; an arithmetic or array statement that meets
  \<^verbatim>\<open>None\<close> raises \<^verbatim>\<open>TypeError\<close>, which leaves the state as it is at that statement
  (\<^const>\<open>Inl\<close>). The flag \<^verbatim>\<open>plot_dirty\<close> is not assigned in the loop.
\<close>

definition dummy_body :: "app \<Rightarrow> real \<Rightarrow> app + app" where
  "dummy_body s expected_next =
     (case first_data_time s of
        None \<Rightarrow> Inl s
      | Some first \<Rightarrow>
          (let graph_t_dummy = expected_next - first;
               idx = data_index s mod MAX_POINTS;
               s1 = s\<lparr>x_data := (x_data s)[idx := graph_t_dummy]\<rparr>
           in case last_p s1 of
                None \<Rightarrow> Inl s1
              | Some p \<Rightarrow>
                  (let s2 = s1\<lparr>y1_data := (y1_data s1)[idx := p]\<rparr>
                   in case last_t s2 of
                        None \<Rightarrow> Inl s2
                      | Some t \<Rightarrow>
                          Inr (s2\<lparr>y2_data := (y2_data s2)[idx := t],
                                  data_index := data_index s2 + 1,
                                  last_update_time := Some expected_next\<rparr>))))"

text \<open>
  The \<^verbatim>\<open>while expected_next <= current_real\<close> loop, carrying the local flag
  \<^verbatim>\<open>added_dummy\<close>. \<^const>\<open>Inr\<close> is the normal exit with the final state and flag.
\<close>

function dummy_loop :: "app \<Rightarrow> real \<Rightarrow> real \<Rightarrow> bool \<Rightarrow> app + app \<times> bool" where
  "dummy_loop s expected_next current_real added_dummy =
     (if expected_next \<le> current_real then
        (case dummy_body s expected_next of
           Inl s' \<Rightarrow> Inl s'
         | Inr s' \<Rightarrow> dummy_loop s' (expected_next + interval_s) current_real True)
      else Inr (s, added_dummy))"
  by pat_completeness auto
termination
proof (relation "measure (\<lambda>(s, e, c, a). nat (\<lfloor>(c - e) * 10\<rfloor> + 1))")
  show "wf (measure (\<lambda>(s, e, c, a). nat (\<lfloor>(c - e) * 10\<rfloor> + 1)))"
    by simp
next
  fix s :: app and expected_next current_real :: real and added_dummy :: bool and x2 :: app
  assume le: "expected_next \<le> current_real"
  have eq: "(current_real - (expected_next + interval_s)) * 10
            = (current_real - expected_next) * 10 - 1"
    by (simp add: interval_s_def DATA_COLLECTION_INTERVAL_MS_def algebra_simps)
  have fl: "\<lfloor>(current_real - (expected_next + interval_s)) * 10\<rfloor>
            = \<lfloor>(current_real - expected_next) * 10\<rfloor> - 1"
    unfolding eq by simp
  have nonneg: "0 \<le> \<lfloor>(current_real - expected_next) * 10\<rfloor>"
    using le by simp
  show "((x2, expected_next + interval_s, current_real, True),
         (s, expected_next, current_real, added_dummy))
        \<in> measure (\<lambda>(s, e, c, a). nat (\<lfloor>(c - e) * 10\<rfloor> + 1))"
    unfolding in_measure prod.case fl using nonneg by linarith
qed

text \<open>What one tick hands to the plot: the two series, and the x limits when set.\<close>

record frame =
  xs :: "real list"
  y1s :: "real list"
  y2s :: "real list"
  xlim :: "(real \<times> real) option"

text \<open>
  Lines 285 to 302: the points shown, in the order they are drawn. Only called with
  \<open>data_index > 0\<close>.
\<close>

definition snapshot :: "app \<Rightarrow> real list \<times> real list \<times> real list" where
  "snapshot s =
     (let n_points = min (data_index s) MAX_POINTS
      in if n_points < MAX_POINTS then
           (take n_points (x_data s), take n_points (y1_data s), take n_points (y2_data s))
         else
           (let start_idx = data_index s mod MAX_POINTS
            in (drop start_idx (x_data s) @ take start_idx (x_data s),
                drop start_idx (y1_data s) @ take start_idx (y1_data s),
                drop start_idx (y2_data s) @ take start_idx (y2_data s))))"

text \<open>
  Lines 258 to 320 without the elapsed-time label. The result is the new state and the
  frame whose redraw is requested with \<^verbatim>\<open>draw_idle\<close>, or \<^const>\<open>None\<close> when nothing is
  drawn: the early \<^verbatim>\<open>return\<close>, the skipped \<^verbatim>\<open>if\<close>, or an exception of the loop caught by
  the \<^verbatim>\<open>except\<close> clause. The plotting calls themselves are taken not to raise.
\<close>

definition update_plots :: "app \<Rightarrow> real \<Rightarrow> app \<times> frame option" where
  "update_plots s current_real =
     (case (if first_data_time s \<noteq> None \<and> last_update_time s \<noteq> None \<and> last_p s \<noteq> None
            then dummy_loop s (the (last_update_time s) + interval_s) current_real False
            else Inr (s, False)) of
        Inl s' \<Rightarrow> (s', None)
      | Inr (s', added_dummy) \<Rightarrow>
          if plot_dirty s' \<or> added_dummy then
            (let n_points = min (data_index s') MAX_POINTS
             in if n_points = 0 then (s', None)
                else
                  (case snapshot s' of
                     (x, y1, y2) \<Rightarrow>
                       (s'\<lparr>plot_dirty := False\<rparr>,
                        Some \<lparr>xs = x, y1s = y1, y2s = y2,
                              xlim = (if length x > 0
                                      then Some (hd x, last x + interval_s * 2)
                                      else None)\<rparr>)))
          else (s', None))"

section \<open>Runs of the plotter\<close>

text \<open>
  Both \<^verbatim>\<open>receive_data\<close> (a queued signal) and \<^verbatim>\<open>update_plots\<close> (a timer) run on the
  GUI thread, one after the other. A run is the list of these calls, each with the
  clock reading it takes.
\<close>

datatype event = Recv sample real | Tick real

fun step :: "app \<Rightarrow> event \<Rightarrow> app" where
  "step s (Recv d now) = receive_data s d now"
| "step s (Tick now) = fst (update_plots s now)"

definition run_events :: "app \<Rightarrow> event list \<Rightarrow> app" where
  "run_events s evs = foldl step s evs"

section \<open>The write history of a run\<close>

text \<open>
  A point is one entry of the three arrays: relative time, pressure, temperature.
  \<open>put\<close> is the ring write that both writers perform (lines 244 to 248 and 273 to 277):
  the three cells at \<open>data_index mod MAX_POINTS\<close>, then the counter. The history
  \<open>inserted\<close> of a run lists the points written, in order; that the loop of a tick
  is these writes is lemma \<open>dummy_loop_tick\<close>, and that the arrays after a run are
  the result of these writes is lemma \<open>ring_run\<close>.
\<close>

type_synonym point = "real \<times> real \<times> real"

definition put :: "app \<Rightarrow> point \<Rightarrow> app" where
  "put s pt =
     (case pt of (gx, gy1, gy2) \<Rightarrow>
        (let idx = data_index s mod MAX_POINTS
         in s\<lparr>x_data := (x_data s)[idx := gx],
               y1_data := (y1_data s)[idx := gy1],
               y2_data := (y2_data s)[idx := gy2],
               data_index := data_index s + 1\<rparr>))"

text \<open>
  The points a tick synthesises: one for each whole interval between the last update
  \<open>u\<close> and the clock reading, at \<open>u + interval_s\<close>, \<open>u + 2 * interval_s\<close>, ...,
  relative to the anchor, with the cached values.
\<close>

definition held_points :: "real \<Rightarrow> real \<Rightarrow> real \<Rightarrow> nat \<Rightarrow> point list" where
  "held_points t0 p t n = map (\<lambda>j. (t0 + real (Suc j) * interval_s, p, t)) [0..<n]"

definition tick_points :: "app \<Rightarrow> real \<Rightarrow> point list" where
  "tick_points s now =
     (case (first_data_time s, last_update_time s, last_p s, last_t s) of
        (Some f, Some u, Some p, Some t) \<Rightarrow>
          held_points (u - f) p t (nat \<lfloor>(now - u) / interval_s\<rfloor>)
      | _ \<Rightarrow> [])"

text \<open>The point a real sample writes: its arrival time relative to the anchor.\<close>

definition recv_point :: "app \<Rightarrow> sample \<Rightarrow> real \<Rightarrow> point" where
  "recv_point s d now =
     (now - (case first_data_time s of None \<Rightarrow> now | Some f \<Rightarrow> f), P d, T d)"

fun inserted :: "app \<Rightarrow> event list \<Rightarrow> point list" where
  "inserted s [] = []"
| "inserted s (Recv d now # evs) = recv_point s d now # inserted (receive_data s d now) evs"
| "inserted s (Tick now # evs) = tick_points s now @ inserted (fst (update_plots s now)) evs"

fun clock :: "event \<Rightarrow> real" where
  "clock (Recv d now) = now"
| "clock (Tick now) = now"

text \<open>The most recent real sample of a run, and the clock reading of its first one.\<close>

fun last_recv :: "event list \<Rightarrow> sample option" where
  "last_recv [] = None"
| "last_recv (Recv d now # evs) = (case last_recv evs of None \<Rightarrow> Some d | Some d' \<Rightarrow> Some d')"
| "last_recv (Tick now # evs) = last_recv evs"

fun first_recv_time :: "event list \<Rightarrow> real option" where
  "first_recv_time [] = None"
| "first_recv_time (Recv d now # evs) = Some now"
| "first_recv_time (Tick now # evs) = first_recv_time evs"

text \<open>
  What every state of a run satisfies: the cache is filled as a whole, and the dirty
  flag is only up once something was written.
\<close>

definition cache_ok :: "app \<Rightarrow> bool" where
  "cache_ok s \<longleftrightarrow>
     (last_p s \<noteq> None \<longrightarrow> last_t s \<noteq> None) \<and> (plot_dirty s \<longrightarrow> 0 < data_index s)"

text \<open>The three series of a list of points, as a frame shows them.\<close>

definition series :: "point list \<Rightarrow> real list \<times> real list \<times> real list" where
  "series pts = (map fst pts, map (fst \<circ> snd) pts, map (snd \<circ> snd) pts)"

text \<open>The sample of the specification's end-to-end example, used for concrete runs.\<close>

definition example_sample :: sample where
  "example_sample =
     \<lparr>P = 300.5, T = 150.2, MV = 45, SH = 10, F = ''A'', M = ''AUTO'', ESD = ''Normal'',
      ESTADO = ''Operando Normal'', RELIEF = ''Cerrada'', PURGE = ''Cerrada''\<rparr>"

text \<open>The value of \<open>last_update_time\<close> after the loop of a tick.\<close>

definition tick_time :: "app \<Rightarrow> real \<Rightarrow> real option" where
  "tick_time s now =
     (case last_update_time s of
        None \<Rightarrow> None
      | Some u \<Rightarrow> if tick_points s now = [] then Some u
                  else Some (u + real (nat \<lfloor>(now - u) / interval_s\<rfloor>) * interval_s))"

definition ring :: "app \<Rightarrow> real list \<times> real list \<times> real list \<times> nat" where
  "ring s = (x_data s, y1_data s, y2_data s, data_index s)"

definition frame_of :: "app \<Rightarrow> frame" where
  "frame_of s =
     (case snapshot s of
        (x, y1, y2) \<Rightarrow>
          \<lparr>xs = x, y1s = y1, y2s = y2,
           xlim = (if length x > 0 then Some (hd x, last x + interval_s * 2) else None)\<rparr>)"

definition rput :: "real list \<times> real list \<times> real list \<times> nat \<Rightarrow> point
    \<Rightarrow> real list \<times> real list \<times> real list \<times> nat" where
  "rput r pt =
     (case (r, pt) of
        ((x, y1, y2, i), (gx, gy1, gy2)) \<Rightarrow>
          (x[i mod MAX_POINTS := gx], y1[i mod MAX_POINTS := gy1],
           y2[i mod MAX_POINTS := gy2], Suc i))"

section \<open>\<^verbatim>\<open>SerialReader.parse_data\<close>\<close>

text \<open>
  A Python \<^verbatim>\<open>str\<close> is modelled as a \<^typ>\<open>string\<close> whose characters are the code points
  below 256; \<open>of_char\<close> gives the code point. The classes \<^verbatim>\<open>\d\<close>, \<^verbatim>\<open>\w\<close> and \<^verbatim>\<open>\s\<close> of
  \<^verbatim>\<open>re\<close> are written out for this range as lists of code-point intervals.
\<close>

definition in_ranges :: "(nat \<times> nat) list \<Rightarrow> char \<Rightarrow> bool" where
  "in_ranges rs c = list_ex (\<lambda>(lo, hi). lo \<le> of_char c \<and> of_char c \<le> hi) rs"

definition is_digit :: "char \<Rightarrow> bool" where
  "is_digit = in_ranges [(0x30, 0x39)]"

definition is_word :: "char \<Rightarrow> bool" where
  "is_word = in_ranges [(0x30, 0x39), (0x41, 0x5A), (0x5F, 0x5F), (0x61, 0x7A), (0xAA, 0xAA),
     (0xB2, 0xB3), (0xB5, 0xB5), (0xB9, 0xBA), (0xBC, 0xBE), (0xC0, 0xD6), (0xD8, 0xF6),
     (0xF8, 0xFF)]"

definition is_space :: "char \<Rightarrow> bool" where
  "is_space = in_ranges [(0x09, 0x0D), (0x1C, 0x20), (0x85, 0x85), (0xA0, 0xA0)]"

text \<open>The bracket classes \<^verbatim>\<open>[\d.-]\<close> and \<^verbatim>\<open>[\w\s:]\<close> of the pattern.\<close>

definition cls_num :: "char \<Rightarrow> bool" where
  "cls_num c \<longleftrightarrow> is_digit c \<or> c = CHR ''.'' \<or> c = CHR ''-''"

definition cls_estado :: "char \<Rightarrow> bool" where
  "cls_estado c \<longleftrightarrow> is_word c \<or> is_space c \<or> c = CHR '':''"

text \<open>
  The pattern is a sequence of literals and capturing groups of the form
  \<^verbatim>\<open>([class]+)\<close>. \<open>match_here\<close> is the backtracking matcher of \<^verbatim>\<open>re\<close> anchored at the
  start of its input: a literal must be a prefix; a group first takes the longest run of
  class characters and gives characters back one at a time, down to one, until the rest
  of the pattern matches. The result is the list of captured groups of the first match
  found. \<open>re_search\<close> tries the start positions from left to right, as \<^verbatim>\<open>re.search\<close>.
\<close>

datatype item = Lit string | Grp "char \<Rightarrow> bool"

fun starts_with :: "string \<Rightarrow> string \<Rightarrow> bool" where
  "starts_with [] s = True"
| "starts_with (c # l) [] = False"
| "starts_with (c # l) (d # s) = (c = d \<and> starts_with l s)"

fun try_lengths :: "(string \<Rightarrow> string list option) \<Rightarrow> string \<Rightarrow> nat \<Rightarrow> string list option" where
  "try_lengths k s 0 = None"
| "try_lengths k s (Suc n) =
     (case k (drop (Suc n) s) of
        Some gs \<Rightarrow> Some (take (Suc n) s # gs)
      | None \<Rightarrow> try_lengths k s n)"

primrec match_here :: "item list \<Rightarrow> string \<Rightarrow> string list option" where
  "match_here [] = (\<lambda>s. Some [])"
| "match_here (it # its) =
     (\<lambda>s. case it of
             Lit l \<Rightarrow> if starts_with l s then match_here its (drop (length l) s) else None
           | Grp c \<Rightarrow> try_lengths (match_here its) s (length (takeWhile c s)))"

fun re_search :: "item list \<Rightarrow> string \<Rightarrow> string list option" where
  "re_search its [] = match_here its []"
| "re_search its (c # s) =
     (case match_here its (c # s) of
        Some gs \<Rightarrow> Some gs
      | None \<Rightarrow> re_search its s)"

text \<open>The pattern \<^verbatim>\<open>patron\<close> of line 94.\<close>

definition patron :: "item list" where
  "patron =
     [Lit ''P:'', Grp cls_num, Lit '',T:'', Grp cls_num, Lit '',MV:'', Grp cls_num,
      Lit '',SH:'', Grp cls_num, Lit '',F:'', Grp is_word, Lit '',M:'', Grp is_word,
      Lit '',ESD:'', Grp is_word, Lit '',ESTADO:'', Grp cls_estado,
      Lit '',RELIEF:'', Grp is_word, Lit '',PURGE:'', Grp is_word]"

text \<open>
  \<^verbatim>\<open>float\<close> on the strings that a group of class \<^verbatim>\<open>[\d.-]\<close> can capture: an optional
  minus sign, then digits with at most one point and at least one digit; anything else
  over these characters raises \<^verbatim>\<open>ValueError\<close> (\<^const>\<open>None\<close>). The value is the exact
  decimal, not its nearest binary64.
\<close>

definition digit_val :: "char \<Rightarrow> nat" where
  "digit_val c = of_char c - 48"

definition dec :: "string \<Rightarrow> nat" where
  "dec ds = foldl (\<lambda>acc c. 10 * acc + digit_val c) 0 ds"

definition py_float :: "string \<Rightarrow> real option" where
  "py_float s =
     (let (sgn, body) = (case s of
                           [] \<Rightarrow> (1, s)
                         | c # r \<Rightarrow> if c = CHR ''-'' then (- 1, r) else (1, s));
          ip = takeWhile is_digit body;
          rest = dropWhile is_digit body
      in case rest of
           [] \<Rightarrow> if ip = [] then None else Some (sgn * real (dec ip))
         | c # fp \<Rightarrow>
             if c = CHR ''.'' \<and> list_all is_digit fp \<and> (ip \<noteq> [] \<or> fp \<noteq> [])
             then Some (sgn * (real (dec ip) + real (dec fp) / 10 ^ length fp))
             else None)"

text \<open>
  Lines 92 to 112. A \<^verbatim>\<open>ValueError\<close> of one of the four conversions is caught and the
  function falls through to \<^verbatim>\<open>return None\<close>.
\<close>

definition parse_data :: "string \<Rightarrow> sample option" where
  "parse_data line =
     (case re_search patron line of
        None \<Rightarrow> None
      | Some gs \<Rightarrow>
          (case gs of
             [g1, g2, g3, g4, g5, g6, g7, g8, g9, g10] \<Rightarrow>
               (case py_float g1 of None \<Rightarrow> None | Some p \<Rightarrow>
                (case py_float g2 of None \<Rightarrow> None | Some t \<Rightarrow>
                 (case py_float g3 of None \<Rightarrow> None | Some mv \<Rightarrow>
                  (case py_float g4 of None \<Rightarrow> None | Some sh \<Rightarrow>
                     Some \<lparr>P = p, T = t, MV = mv, SH = sh, F = g5, M = g6, ESD = g7,
                           ESTADO = g8, RELIEF = g9, PURGE = g10\<rparr>))))
           | _ \<Rightarrow> None))"

text \<open>The line of the specification's end-to-end example.\<close>

definition example_line :: string where
  "example_line =
     ''P:300.5,T:150.2,MV:45.0,SH:10.0,F:A,M:AUTO,ESD:Normal,ESTADO:Operando Normal,RELIEF:Cerrada,PURGE:Cerrada''"

subsection \<open>The wire grammar\<close>

text \<open>
  The grammar of the specification: ten \<^verbatim>\<open>KEY:VALUE\<close> fields in fixed order, joined by
  commas. A numeric value is one that \<^verbatim>\<open>float\<close> converts, a token is a non-empty word,
  the state text a non-empty string of word characters, white space and colons.
\<close>

fun wire_line ::
    "string \<times> string \<times> string \<times> string
     \<Rightarrow> string \<times> string \<times> string \<times> string \<times> string \<times> string \<Rightarrow> string" where
  "wire_line (p, t, mv, sh) (f, m, esd, estado, relief, purge) =
     ''P:'' @ p @ '',T:'' @ t @ '',MV:'' @ mv @ '',SH:'' @ sh @ '',F:'' @ f @ '',M:'' @ m
     @ '',ESD:'' @ esd @ '',ESTADO:'' @ estado @ '',RELIEF:'' @ relief @ '',PURGE:'' @ purge"

definition token :: "string \<Rightarrow> bool" where
  "token w \<longleftrightarrow> w \<noteq> [] \<and> list_all is_word w"

definition state_text :: "string \<Rightarrow> bool" where
  "state_text w \<longleftrightarrow> w \<noteq> [] \<and> list_all cls_estado w"

text \<open>The comma-separated fields of a line, to count them.\<close>

fun split_commas :: "string \<Rightarrow> string list" where
  "split_commas [] = [[]]"
| "split_commas (c # s) =
     (if c = CHR '','' then [] # split_commas s
      else (case split_commas s of [] \<Rightarrow> [[c]] | fld # flds \<Rightarrow> (c # fld) # flds))"

text \<open>
  The text that a pattern matches for given groups, the groups that suit a pattern, and
  patterns in which every group is followed by a literal that starts outside its class.
\<close>

fun build :: "item list \<Rightarrow> string list \<Rightarrow> string" where
  "build [] gs = []"
| "build (Lit l # its) gs = l @ build its gs"
| "build (Grp c # its) [] = []"
| "build (Grp c # its) (g # gs) = g @ build its gs"

fun fits :: "item list \<Rightarrow> string list \<Rightarrow> bool" where
  "fits [] gs = (gs = [])"
| "fits (Lit l # its) gs = fits its gs"
| "fits (Grp c # its) [] = False"
| "fits (Grp c # its) (g # gs) = (g \<noteq> [] \<and> list_all c g \<and> fits its gs)"

fun delimited :: "item list \<Rightarrow> bool" where
  "delimited [] = True"
| "delimited (Lit l # its) = delimited its"
| "delimited [Grp c] = True"
| "delimited (Grp c # Lit [] # its) = False"
| "delimited (Grp c # Lit (d # l) # its) = (\<not> c d \<and> delimited (Lit (d # l) # its))"
| "delimited (Grp c # Grp c' # its) = False"

section \<open>\<^verbatim>\<open>PlotterApp.update_label_styles\<close>\<close>

text \<open>Python's \<^verbatim>\<open>word in estado\<close> on strings: \<open>word\<close> occurs in \<open>estado\<close>.\<close>

fun py_in :: "string \<Rightarrow> string \<Rightarrow> bool" where
  "py_in word [] = (word = [])"
| "py_in word (c # s) = (starts_with word (c # s) \<or> py_in word s)"

text \<open>
  Lines 351 to 372. The style sheets of the labels are a map from the label's key to
  its style sheet; the function returns the map after its \<^verbatim>\<open>setStyleSheet\<close> calls. The
  sixth letter of the keyword for recovery is code point \<open>0xF3\<close>.
\<close>

definition update_label_styles ::
    "(string \<rightharpoonup> string) \<Rightarrow> string \<Rightarrow> string \<Rightarrow> (string \<rightharpoonup> string)" where
  "update_label_styles labels esd estado =
     (let base_style = ''font-size: 14px; font-weight: bold; padding: 5px; border-radius: 5px;'';
          l1 = (if esd = ''Activado''
                then labels(''esd'' \<mapsto> base_style @ ''background-color: red; color: white;'')
                else labels(''esd'' \<mapsto> base_style @ ''background-color: green; color: white;''));
          l2 = (if list_ex (\<lambda>word. py_in word estado) [''Alivio'', ''Purga'', ''Emergencia'']
                then l1(''status'' \<mapsto> base_style @ ''background-color: red; color: white;'')
                else if list_ex (\<lambda>word. py_in word estado)
                          [''Advertencia'', ''Recuperaci'' @ [CHR 0xF3] @ ''n'',
                           ''Precalentamiento'']
                then l1(''status'' \<mapsto> base_style @ ''background-color: orange; color: black;'')
                else l1(''status'' \<mapsto>
                          base_style @ ''background-color: lightgreen; color: black;''))
      in foldl (\<lambda>l key. l(key \<mapsto>
                  ''font-size: 14px; font-weight: normal; color: #333333; padding: 5px;''))
           l2 [''mode'', ''flow'', ''values'', ''relief'', ''purge''])"

text \<open>The three tiers of the specification and the style sheet that shows each.\<close>

datatype severity = Critical | Warning | Nominal

fun severity_style :: "severity \<Rightarrow> string" where
  "severity_style Critical =
     ''font-size: 14px; font-weight: bold; padding: 5px; border-radius: 5px;background-color: red; color: white;''"
| "severity_style Warning =
     ''font-size: 14px; font-weight: bold; padding: 5px; border-radius: 5px;background-color: orange; color: black;''"
| "severity_style Nominal =
     ''font-size: 14px; font-weight: bold; padding: 5px; border-radius: 5px;background-color: lightgreen; color: black;''"

section \<open>\<^verbatim>\<open>SerialReader\<close>\<close>

text \<open>
  The reader's attributes: the flag \<^verbatim>\<open>running\<close>, and the serial port, \<^const>\<open>None\<close> when
  the constructor failed before \<^verbatim>\<open>self.ser\<close> was bound, otherwise whether it is open.
  The argument of \<open>init_reader\<close> tells whether \<^verbatim>\<open>serial.Serial\<close> could open the port.
\<close>

record reader =
  running :: bool
  ser :: "bool option"

definition init_reader :: "bool \<Rightarrow> reader" where
  "init_reader opened =
     (if opened then \<lparr>running = True, ser = Some True\<rparr>
      else \<lparr>running = False, ser = None\<rparr>)"

text \<open>
  What one pass through the body of the loop meets at \<^verbatim>\<open>read_until\<close>: the text decoded
  from the bytes read (empty after a timeout), a \<^verbatim>\<open>serial.SerialException\<close>, or any
  other exception.
\<close>

datatype read_result = Line string | SerialException | OtherException

text \<open>\<^verbatim>\<open>str.strip()\<close>: white space removed at both ends.\<close>

definition strip :: "string \<Rightarrow> string" where
  "strip s = rev (dropWhile is_space (rev (dropWhile is_space s)))"

text \<open>What the body of the loop emits for one read.\<close>

fun emitted_of :: "read_result \<Rightarrow> sample option" where
  "emitted_of (Line l) = (let line = strip l in if line \<noteq> [] then parse_data line else None)"
| "emitted_of SerialException = None"
| "emitted_of OtherException = None"

text \<open>
  Lines 61 to 85 over the reads that the loop meets, in order. The result is the reader
  after the loop, the samples emitted, and the reads not consumed. When the list is used
  up with \<open>running\<close> still up, the loop is blocked in the next read.
\<close>

fun run :: "reader \<Rightarrow> read_result list \<Rightarrow> reader \<times> sample list \<times> read_result list" where
  "run r [] = (r, [], [])"
| "run r (x # rest) =
     (if \<not> running r then (r, [], x # rest)
      else
        (case x of
           Line l \<Rightarrow>
             (case emitted_of (Line l) of
                Some data \<Rightarrow> (case run r rest of (r', out, left) \<Rightarrow> (r', data # out, left))
              | None \<Rightarrow> run r rest)
         | SerialException \<Rightarrow> run (r\<lparr>running := False\<rparr>) rest
         | OtherException \<Rightarrow> run r rest))"

text \<open>Lines 87 to 90.\<close>

definition stop :: "reader \<Rightarrow> reader" where
  "stop r =
     (let r1 = r\<lparr>running := False\<rparr>
      in if ser r1 = Some True then r1\<lparr>ser := Some False\<rparr> else r1)"

text \<open>What a numeric group can capture: a non-empty string of digits, points and minus signs.\<close>

definition numeric_text :: "string \<Rightarrow> bool" where
  "numeric_text w \<longleftrightarrow> w \<noteq> [] \<and> list_all cls_num w"

section \<open>Properties of the store\<close>

lemma interval_pos: "0 < interval_s"
  by (simp add: interval_s_def DATA_COLLECTION_INTERVAL_MS_def)

lemma MAX_POINTS_pos: "0 < MAX_POINTS"
  by (simp add: MAX_POINTS_def)

declare dummy_loop.simps [simp del]

subsection \<open>Ring writes\<close>

lemma put_fields [simp]:
  "first_data_time (put s pt) = first_data_time s"
  "last_p (put s pt) = last_p s"
  "last_t (put s pt) = last_t s"
  "last_update_time (put s pt) = last_update_time s"
  "plot_dirty (put s pt) = plot_dirty s"
  "data_index (put s pt) = Suc (data_index s)"
  by (simp_all add: put_def Let_def split: prod.splits)

lemma put_upd:
  "put (s\<lparr>last_update_time := v\<rparr>) pt = (put s pt)\<lparr>last_update_time := v\<rparr>"
  by (simp add: put_def Let_def split: prod.splits)

lemma foldl_put_upd:
  "foldl put (s\<lparr>last_update_time := v\<rparr>) pts = (foldl put s pts)\<lparr>last_update_time := v\<rparr>"
  by (induction pts arbitrary: s) (simp_all add: put_upd)

lemma foldl_put_fields [simp]:
  "first_data_time (foldl put s pts) = first_data_time s"
  "last_p (foldl put s pts) = last_p s"
  "last_t (foldl put s pts) = last_t s"
  "last_update_time (foldl put s pts) = last_update_time s"
  "plot_dirty (foldl put s pts) = plot_dirty s"
  "data_index (foldl put s pts) = data_index s + length pts"
  by (induction pts arbitrary: s) simp_all

subsection \<open>The synthesis loop as a sequence of ring writes\<close>

lemma dummy_body_ok:
  assumes "first_data_time s = Some f" "last_p s = Some p" "last_t s = Some t"
  shows "dummy_body s e = Inr ((put s (e - f, p, t))\<lparr>last_update_time := Some e\<rparr>)"
  using assms by (simp add: dummy_body_def put_def Let_def)

lemma held_points_Suc:
  "held_points t0 p t (Suc n) = (t0 + interval_s, p, t) # held_points (t0 + interval_s) p t n"
proof -
  have "[0..<Suc n] = 0 # map Suc [0..<n]"
    by (simp add: upt_conv_Cons map_Suc_upt del: upt_Suc)
  then show ?thesis
    by (simp add: held_points_def o_def algebra_simps del: upt_Suc)
qed

lemma dummy_loop_held:
  assumes "first_data_time s = Some f" "last_p s = Some p" "last_t s = Some t"
    and "now < e + real n * interval_s"
    and "n = 0 \<or> e + real (n - 1) * interval_s \<le> now"
  shows "dummy_loop s e now a =
           Inr ((foldl put s (held_points (e - interval_s - f) p t n))
                  \<lparr>last_update_time :=
                     (if n = 0 then last_update_time s else Some (e + real (n - 1) * interval_s))\<rparr>,
                a \<or> 0 < n)"
  using assms
proof (induction n arbitrary: s e a)
  case 0
  then show ?case
    by (simp add: dummy_loop.simps[of s e now a] held_points_def)
next
  case (Suc n)
  have le: "e \<le> now"
  proof -
    have "0 \<le> real n * interval_s" using interval_pos by simp
    with Suc.prems(5) show ?thesis by simp
  qed
  let ?s = "(put s (e - f, p, t))\<lparr>last_update_time := Some e\<rparr>"
  have body: "dummy_body s e = Inr ?s"
    using Suc.prems by (simp add: dummy_body_ok)
  have step: "dummy_loop s e now a = dummy_loop ?s (e + interval_s) now True"
    using le body by (simp add: dummy_loop.simps[of s e now a])
  have h1: "now < e + interval_s + real n * interval_s"
    using Suc.prems(4) by (simp add: algebra_simps)
  have h2: "n = 0 \<or> e + interval_s + real (n - 1) * interval_s \<le> now"
  proof (cases n)
    case 0 then show ?thesis by simp
  next
    case (Suc m)
    with Suc.prems(5) show ?thesis by (simp add: algebra_simps)
  qed
  have IH: "dummy_loop ?s (e + interval_s) now True =
      Inr ((foldl put ?s (held_points (e + interval_s - interval_s - f) p t n))
             \<lparr>last_update_time :=
                (if n = 0 then last_update_time ?s
                 else Some (e + interval_s + real (n - 1) * interval_s))\<rparr>,
           True \<or> 0 < n)"
    by (rule Suc.IH) (use Suc.prems h1 h2 in simp_all)
  have lu: "(if n = 0 then last_update_time ?s
             else Some (e + interval_s + real (n - 1) * interval_s))
            = Some (e + real n * interval_s)"
    by (cases n) (simp_all add: algebra_simps)
  have hp: "held_points (e - interval_s - f) p t (Suc n)
            = (e - f, p, t) # held_points (e - f) p t n"
    using held_points_Suc[of "e - interval_s - f" p t n] by simp
  show ?case
    unfolding step IH lu hp
    by (simp add: foldl_put_upd put_upd)
qed

subsection \<open>Frame of the loop, and the loop of one tick\<close>

lemma dummy_body_frame:
  "dummy_body s e = Inr s' \<or> dummy_body s e = Inl s' \<Longrightarrow>
     first_data_time s' = first_data_time s \<and> last_p s' = last_p s \<and> last_t s' = last_t s
     \<and> plot_dirty s' = plot_dirty s"
  by (auto simp: dummy_body_def Let_def split: option.splits)

lemma dummy_loop_frame:
  "dummy_loop s e now a = Inr (s', b) \<or> dummy_loop s e now a = Inl s' \<Longrightarrow>
     first_data_time s' = first_data_time s \<and> last_p s' = last_p s \<and> last_t s' = last_t s
     \<and> plot_dirty s' = plot_dirty s"
proof (induction s e now a arbitrary: s' b rule: dummy_loop.induct)
  case (1 s e now a)
  show ?case
  proof (cases "e \<le> now")
    case False
    with "1.prems" show ?thesis
      by (simp add: dummy_loop.simps[of s e now a])
  next
    case True
    show ?thesis
    proof (cases "dummy_body s e")
      case (Inl s1)
      with True "1.prems" have "s' = s1"
        by (simp add: dummy_loop.simps[of s e now a])
      with Inl show ?thesis
        using dummy_body_frame[of s e s'] by simp
    next
      case (Inr s1)
      with True "1.prems" have
        "dummy_loop s1 (e + interval_s) now True = Inr (s', b)
         \<or> dummy_loop s1 (e + interval_s) now True = Inl s'"
        by (simp add: dummy_loop.simps[of s e now a])
      from "1.IH"[OF True Inr this] dummy_body_frame[of s e s1] Inr
      show ?thesis by simp
    qed
  qed
qed

lemma held_points_Nil: "held_points t0 p t n = [] \<longleftrightarrow> n = 0"
  by (simp add: held_points_def)

lemma floor_bounds:
  assumes "u \<le> now"
  shows "u + real (nat \<lfloor>(now - u) / interval_s\<rfloor>) * interval_s \<le> now"
    and "now < u + real (Suc (nat \<lfloor>(now - u) / interval_s\<rfloor>)) * interval_s"
proof -
  let ?x = "(now - u) / interval_s"
  have x0: "0 \<le> ?x" using assms interval_pos by simp
  then have fl0: "0 \<le> \<lfloor>?x\<rfloor>" by simp
  have r: "real (nat \<lfloor>?x\<rfloor>) = of_int \<lfloor>?x\<rfloor>" using fl0 by simp
  have xi: "?x * interval_s = now - u" using interval_pos by simp
  have "of_int \<lfloor>?x\<rfloor> * interval_s \<le> ?x * interval_s"
    by (rule mult_right_mono[OF of_int_floor_le]) (use interval_pos in simp)
  then have "of_int \<lfloor>?x\<rfloor> * interval_s \<le> now - u"
    unfolding xi .
  then show "u + real (nat \<lfloor>?x\<rfloor>) * interval_s \<le> now"
    unfolding r by simp
  have "?x < of_int \<lfloor>?x\<rfloor> + 1" by linarith
  then have "?x * interval_s < (of_int \<lfloor>?x\<rfloor> + 1) * interval_s"
    by (rule mult_strict_right_mono) (rule interval_pos)
  then have "now - u < (of_int \<lfloor>?x\<rfloor> + 1) * interval_s"
    unfolding xi .
  then show "now < u + real (Suc (nat \<lfloor>?x\<rfloor>)) * interval_s"
    using fl0 by (simp add: r algebra_simps)
qed

lemma floor_neg:
  assumes "now < u" shows "nat \<lfloor>(now - u) / interval_s\<rfloor> = 0"
proof -
  have "(now - u) / interval_s < 0" using assms interval_pos by (simp add: divide_neg_pos)
  then have "\<lfloor>(now - u) / interval_s\<rfloor> < 0" by (simp add: floor_less_iff)
  then show ?thesis by simp
qed

lemma dummy_loop_tick:
  assumes "first_data_time s = Some f" "last_update_time s = Some u"
    "last_p s = Some p" "last_t s = Some t"
  shows "dummy_loop s (u + interval_s) now False =
           Inr ((foldl put s (tick_points s now))\<lparr>last_update_time := tick_time s now\<rparr>,
                tick_points s now \<noteq> [])"
proof -
  let ?n = "nat \<lfloor>(now - u) / interval_s\<rfloor>"
  have tp: "tick_points s now = held_points (u - f) p t ?n"
    using assms by (simp add: tick_points_def)
  have ne: "(held_points (u - f) p t ?n \<noteq> []) = (0 < ?n)"
    by (simp only: held_points_Nil neq0_conv)
  have a: "now < u + interval_s + real ?n * interval_s"
  proof (cases "u \<le> now")
    case True
    from floor_bounds(2)[OF True] show ?thesis by (simp add: algebra_simps)
  next
    case False
    then have "?n = 0" using floor_neg by simp
    with False interval_pos show ?thesis by simp
  qed
  have b: "?n = 0 \<or> u + interval_s + real (?n - 1) * interval_s \<le> now"
  proof (cases "u \<le> now")
    case True
    from floor_bounds(1)[OF True] show ?thesis
      by (cases ?n) (simp_all add: algebra_simps)
  next
    case False
    then have "?n = 0" using floor_neg by simp
    then show ?thesis by simp
  qed
  have c: "(if ?n = 0 then last_update_time s
            else Some (u + interval_s + real (?n - 1) * interval_s)) = tick_time s now"
    using assms(2) by (cases ?n) (simp_all add: tick_time_def tp held_points_Nil algebra_simps)
  have "dummy_loop s (u + interval_s) now False =
          Inr ((foldl put s (held_points (u - f) p t ?n))
                 \<lparr>last_update_time := tick_time s now\<rparr>, 0 < ?n)"
    using dummy_loop_held[OF assms(1) assms(3) assms(4) a b, of False]
    unfolding c by (simp only: add_diff_cancel simp_thms)
  then show ?thesis
    by (simp only: tp ne)
qed

lemma ring_put: "ring (put s pt) = rput (ring s) pt"
  by (simp add: ring_def put_def rput_def Let_def split: prod.splits)

lemma ring_foldl_put: "ring (foldl put s pts) = foldl rput (ring s) pts"
  by (induction pts arbitrary: s) (simp_all add: ring_put)

lemma ring_foldl_put_cong: "ring s = ring s' \<Longrightarrow> ring (foldl put s pts) = ring (foldl put s' pts)"
  by (simp only: ring_foldl_put)

lemma snapshot_cong: "ring s = ring s' \<Longrightarrow> snapshot s = snapshot s'"
  by (simp add: ring_def snapshot_def Let_def)

lemma ring_upd [simp]:
  "ring (s\<lparr>last_update_time := v\<rparr>) = ring s"
  "ring (s\<lparr>plot_dirty := b\<rparr>) = ring s"
  by (simp_all add: ring_def)

lemma ring_receive_data: "ring (receive_data s d now) = ring (put s (recv_point s d now))"
  by (simp add: ring_def receive_data_def put_def recv_point_def Let_def split: option.splits)

lemma tick_points_guard:
  "\<not> (first_data_time s \<noteq> None \<and> last_update_time s \<noteq> None \<and> last_p s \<noteq> None)
   \<Longrightarrow> tick_points s now = []"
  by (auto simp: tick_points_def split: option.splits)

lemma tick_time_Nil: "tick_points s now = [] \<Longrightarrow> tick_time s now = last_update_time s"
  by (simp add: tick_time_def split: option.splits)

lemma frame_of_alt:
  "(case snapshot s of
      (x, y1, y2) \<Rightarrow>
        (s\<lparr>plot_dirty := False\<rparr>,
         Some \<lparr>xs = x, y1s = y1, y2s = y2,
               xlim = (if length x > 0 then Some (hd x, last x + interval_s * 2)
                       else None)\<rparr>))
   = (s\<lparr>plot_dirty := False\<rparr>, Some (frame_of s))"
  by (simp add: frame_of_def split: prod.splits)

lemma update_plots_alt:
  "update_plots s now =
     (case (if first_data_time s \<noteq> None \<and> last_update_time s \<noteq> None \<and> last_p s \<noteq> None
            then dummy_loop s (the (last_update_time s) + interval_s) now False
            else Inr (s, False)) of
        Inl s' \<Rightarrow> (s', None)
      | Inr (s', added_dummy) \<Rightarrow>
          if plot_dirty s' \<or> added_dummy then
            (if min (data_index s') MAX_POINTS = 0 then (s', None)
             else (s'\<lparr>plot_dirty := False\<rparr>, Some (frame_of s')))
          else (s', None))"
  by (simp only: update_plots_def Let_def frame_of_alt)

lemma frame_of_cong: "ring s = ring s' \<Longrightarrow> frame_of s = frame_of s'"
  using snapshot_cong[of s s'] by (simp add: frame_of_def)

lemma update_plots_char:
  assumes "cache_ok s"
  shows "update_plots s now =
           ((foldl put s (tick_points s now))
              \<lparr>last_update_time := tick_time s now, plot_dirty := False\<rparr>,
            if plot_dirty s \<or> tick_points s now \<noteq> []
            then Some (frame_of (foldl put s (tick_points s now))) else None)"
proof (cases "first_data_time s \<noteq> None \<and> last_update_time s \<noteq> None \<and> last_p s \<noteq> None")
  case False
  then have tp: "tick_points s now = []" by (rule tick_points_guard)
  have up: "update_plots s now =
     (if plot_dirty s then
            (if min (data_index s) MAX_POINTS = 0 then (s, None)
             else (s\<lparr>plot_dirty := False\<rparr>, Some (frame_of s)))
          else (s, None))"
    by (simp only: update_plots_alt if_not_P[OF False] sum.case prod.case simp_thms)
  show ?thesis
  proof (cases "plot_dirty s")
    case True
    with assms have "0 < data_index s" by (simp add: cache_ok_def)
    then have "min (data_index s) MAX_POINTS \<noteq> 0"
      using MAX_POINTS_pos by simp
    with True show ?thesis
      unfolding up by (simp add: tp tick_time_Nil)
  next
    case nd: False
    then show ?thesis
      unfolding up by (simp add: tp tick_time_Nil)
  qed
next
  case True
  with assms obtain f u p t where v: "first_data_time s = Some f" "last_update_time s = Some u"
    "last_p s = Some p" "last_t s = Some t"
    by (auto simp: cache_ok_def)
  let ?s1 = "(foldl put s (tick_points s now))\<lparr>last_update_time := tick_time s now\<rparr>"
  have loop: "dummy_loop s (u + interval_s) now False = Inr (?s1, tick_points s now \<noteq> [])"
    by (rule dummy_loop_tick[OF v])
  have fo: "frame_of ?s1 = frame_of (foldl put s (tick_points s now))"
    by (rule frame_of_cong) simp
  have up: "update_plots s now =
     (if plot_dirty s \<or> tick_points s now \<noteq> [] then
            (if min (data_index ?s1) MAX_POINTS = 0 then (?s1, None)
             else (?s1\<lparr>plot_dirty := False\<rparr>, Some (frame_of ?s1)))
          else (?s1, None))"
    unfolding update_plots_alt using v loop by simp
  show ?thesis
  proof (cases "plot_dirty s \<or> tick_points s now \<noteq> []")
    case False
    then show ?thesis
      unfolding up by (simp add: tick_time_Nil)
  next
    case dirty: True
    have "0 < data_index s + length (tick_points s now)"
    proof (cases "plot_dirty s")
      case True
      with assms show ?thesis by (simp add: cache_ok_def)
    next
      case False
      with dirty show ?thesis by simp
    qed
    then have np: "min (data_index ?s1) MAX_POINTS \<noteq> 0"
      using MAX_POINTS_pos by simp
    show ?thesis
      unfolding up fo using dirty np by simp
  qed
qed

lemma cache_ok_init: "cache_ok init_app"
  by (simp add: cache_ok_def init_app_def)

lemma cache_ok_receive_data: "cache_ok (receive_data s d now)"
  by (simp add: cache_ok_def receive_data_def Let_def)

lemma cache_ok_update_plots: "cache_ok s \<Longrightarrow> cache_ok (fst (update_plots s now))"
  by (simp add: update_plots_char) (simp add: cache_ok_def)

lemma cache_ok_step: "cache_ok s \<Longrightarrow> cache_ok (step s ev)"
  by (cases ev) (simp_all add: cache_ok_receive_data cache_ok_update_plots)

lemma run_events_Cons [simp]: "run_events s (ev # evs) = run_events (step s ev) evs"
  by (simp add: run_events_def)

lemma run_events_Nil [simp]: "run_events s [] = s"
  by (simp add: run_events_def)

lemma cache_ok_run: "cache_ok s \<Longrightarrow> cache_ok (run_events s evs)"
  by (induction evs arbitrary: s) (simp_all add: cache_ok_step)

lemma foldl_put_append_ring:
  "ring s' = ring (foldl put s as) \<Longrightarrow> ring (foldl put s' bs) = ring (foldl put s (as @ bs))"
  using ring_foldl_put_cong[of s' "foldl put s as" bs] by simp

lemma ring_run:
  "cache_ok s \<Longrightarrow> ring (run_events s evs) = ring (foldl put s (inserted s evs))"
proof (induction evs arbitrary: s)
  case Nil
  then show ?case by simp
next
  case (Cons ev evs)
  show ?case
  proof (cases ev)
    case (Recv d now)
    have "ring (run_events (receive_data s d now) evs)
          = ring (foldl put (receive_data s d now) (inserted (receive_data s d now) evs))"
      by (rule Cons.IH) (rule cache_ok_receive_data)
    also have "\<dots> = ring (foldl put (put s (recv_point s d now))
                            (inserted (receive_data s d now) evs))"
      by (rule ring_foldl_put_cong) (rule ring_receive_data)
    finally show ?thesis using Recv by simp
  next
    case (Tick now)
    let ?s' = "fst (update_plots s now)"
    have r: "ring ?s' = ring (foldl put s (tick_points s now))"
      using Cons.prems by (simp add: update_plots_char)
    have "ring (run_events ?s' evs) = ring (foldl put ?s' (inserted ?s' evs))"
      by (rule Cons.IH) (rule cache_ok_update_plots[OF Cons.prems])
    also have "\<dots> = ring (foldl put s (tick_points s now @ inserted ?s' evs))"
      by (rule foldl_put_append_ring[OF r])
    finally show ?thesis using Tick by simp
  qed
qed

lemma mod_distinct:
  fixes i j k N :: nat
  assumes "j < k" "k - j < N"
  shows "(i + j) mod N \<noteq> (i + k) mod N"
proof
  assume "(i + j) mod N = (i + k) mod N"
  then have "(i + k) mod N = (i + j) mod N" by simp
  moreover have "i + j \<le> i + k" using assms by simp
  ultimately have "N dvd (i + k) - (i + j)"
    by (simp add: mod_eq_dvd_iff_nat)
  then have "N dvd k - j" by simp
  moreover have "0 < k - j" using assms by simp
  ultimately have "N \<le> k - j" by (rule dvd_imp_le)
  with assms show False by simp
qed

lemma rput_simp:
  "rput (x, y1, y2, i) (gx, gy1, gy2) =
     (x[i mod MAX_POINTS := gx], y1[i mod MAX_POINTS := gy1], y2[i mod MAX_POINTS := gy2], Suc i)"
  by (simp add: rput_def)

lemma foldl_rput_nth:
  assumes "length x = MAX_POINTS" "length y1 = MAX_POINTS" "length y2 = MAX_POINTS"
    and "foldl rput (x, y1, y2, i) pts = (x', y1', y2', i')"
  shows "i' = i + length pts \<and> length x' = MAX_POINTS \<and> length y1' = MAX_POINTS
         \<and> length y2' = MAX_POINTS
         \<and> (\<forall>j < length pts. length pts - j \<le> MAX_POINTS \<longrightarrow>
               x' ! ((i + j) mod MAX_POINTS) = fst (pts ! j)
               \<and> y1' ! ((i + j) mod MAX_POINTS) = fst (snd (pts ! j))
               \<and> y2' ! ((i + j) mod MAX_POINTS) = snd (snd (pts ! j)))"
  using assms(4)
proof (induction pts arbitrary: x' y1' y2' i' rule: rev_induct)
  case Nil
  then show ?case using assms(1-3) by simp
next
  case (snoc pt pts)
  obtain xa ya za ia where r: "foldl rput (x, y1, y2, i) pts = (xa, ya, za, ia)"
    by (cases "foldl rput (x, y1, y2, i) pts") auto
  note IH = snoc.IH[OF r]
  obtain gx gy gz where pt: "pt = (gx, gy, gz)" by (cases pt) auto
  let ?c = "(i + length pts) mod MAX_POINTS"
  have c: "?c < MAX_POINTS" using MAX_POINTS_pos by simp
  have "foldl rput (x, y1, y2, i) (pts @ [pt]) = rput (xa, ya, za, ia) (gx, gy, gz)"
    using r pt by simp
  with snoc.prems IH have res:
    "x' = xa[?c := gx]" "y1' = ya[?c := gy]" "y2' = za[?c := gz]" "i' = Suc (i + length pts)"
    by (simp_all add: rput_simp)
  have cells: "x' ! ((i + j) mod MAX_POINTS) = fst ((pts @ [pt]) ! j)
               \<and> y1' ! ((i + j) mod MAX_POINTS) = fst (snd ((pts @ [pt]) ! j))
               \<and> y2' ! ((i + j) mod MAX_POINTS) = snd (snd ((pts @ [pt]) ! j))"
    if j: "j < length (pts @ [pt])" and near: "length (pts @ [pt]) - j \<le> MAX_POINTS" for j
  proof (cases "j = length pts")
    case True
    then show ?thesis using IH c by (simp add: res pt)
  next
    case False
    with j have jl: "j < length pts" by simp
    with near have d: "length pts - j < MAX_POINTS" by simp
    have ne: "(i + j) mod MAX_POINTS \<noteq> ?c"
      by (rule mod_distinct[OF jl d])
    have "length pts - j \<le> MAX_POINTS" using d by simp
    with IH jl have old:
      "xa ! ((i + j) mod MAX_POINTS) = fst (pts ! j)"
      "ya ! ((i + j) mod MAX_POINTS) = fst (snd (pts ! j))"
      "za ! ((i + j) mod MAX_POINTS) = snd (snd (pts ! j))"
      by simp_all
    show ?thesis
      using ne jl old by (simp add: res nth_append)
  qed
  show ?case
    using IH cells by (simp add: res)
qed

lemma rot_eq:
  assumes len: "length a = N" and N: "0 < N" and full: "N \<le> length ps"
    and cells: "\<forall>j<length ps. length ps - j \<le> N \<longrightarrow> a ! (j mod N) = f (ps ! j)"
  shows "drop (length ps mod N) a @ take (length ps mod N) a
         = map f (drop (length ps - N) ps)"
proof -
  let ?k = "length ps"
  have rot: "drop (?k mod N) a @ take (?k mod N) a = rotate ?k a"
    using len by (simp add: rotate_drop_take)
  show ?thesis
    unfolding rot
  proof (rule nth_equalityI)
    show "length (rotate ?k a) = length (map f (drop (?k - N) ps))"
      using len full by simp
  next
    fix m assume "m < length (rotate ?k a)"
    then have m: "m < N" using len by simp
    let ?j = "?k - N + m"
    have j: "?j < ?k" "?k - ?j \<le> N" using m full by simp_all
    have "(?k + m) mod N = (?j + N) mod N" using full by simp
    then have md: "(?k + m) mod N = ?j mod N" by simp
    have "rotate ?k a ! m = a ! ((?k + m) mod N)"
      using m len by (simp add: nth_rotate)
    also have "\<dots> = f (ps ! ?j)"
      unfolding md using cells j by blast
    also have "\<dots> = map f (drop (?k - N) ps) ! m"
      using m full by simp
    finally show "rotate ?k a ! m = map f (drop (?k - N) ps) ! m" .
  qed
qed

lemma take_eq:
  assumes len: "length a = N" and part: "length ps < N"
    and cells: "\<forall>j<length ps. length ps - j \<le> N \<longrightarrow> a ! (j mod N) = f (ps ! j)"
  shows "take (length ps) a = map f ps"
proof (rule nth_equalityI)
  show "length (take (length ps) a) = length (map f ps)"
    using len part by simp
next
  fix m assume "m < length (take (length ps) a)"
  then have m: "m < length ps" by simp
  then have "m mod N = m" "length ps - m \<le> N" using part by simp_all
  with cells m have "a ! m = f (ps ! m)" by metis
  with m show "take (length ps) a ! m = map f ps ! m" by simp
qed

lemma snapshot_of_writes:
  assumes wf: "wf_app s0" and zero: "data_index s0 = 0"
    and r: "ring s = foldl rput (ring s0) pts"
  shows "snapshot s =
           (if length pts < MAX_POINTS then series pts
            else series (drop (length pts - MAX_POINTS) pts))"
    and "data_index s = length pts" and "wf_app s"
proof -
  have r': "foldl rput (x_data s0, y1_data s0, y2_data s0, 0) pts
            = (x_data s, y1_data s, y2_data s, data_index s)"
    using r zero by (simp add: ring_def)
  from wf have l0: "length (x_data s0) = MAX_POINTS" "length (y1_data s0) = MAX_POINTS"
    "length (y2_data s0) = MAX_POINTS"
    by (simp_all add: wf_app_def)
  note F = foldl_rput_nth[OF l0 r']
  from F show di: "data_index s = length pts" by simp
  from F show "wf_app s" by (simp add: wf_app_def)
  from F have cx: "\<forall>j<length pts. length pts - j \<le> MAX_POINTS \<longrightarrow>
      x_data s ! (j mod MAX_POINTS) = fst (pts ! j)"
    and cy: "\<forall>j<length pts. length pts - j \<le> MAX_POINTS \<longrightarrow>
      y1_data s ! (j mod MAX_POINTS) = (fst \<circ> snd) (pts ! j)"
    and cz: "\<forall>j<length pts. length pts - j \<le> MAX_POINTS \<longrightarrow>
      y2_data s ! (j mod MAX_POINTS) = (snd \<circ> snd) (pts ! j)"
    by simp_all
  from F have ls: "length (x_data s) = MAX_POINTS" "length (y1_data s) = MAX_POINTS"
    "length (y2_data s) = MAX_POINTS" by simp_all
  show "snapshot s =
           (if length pts < MAX_POINTS then series pts
            else series (drop (length pts - MAX_POINTS) pts))"
  proof (cases "length pts < MAX_POINTS")
    case True
    then have "min (data_index s) MAX_POINTS = length pts" using di by simp
    with True show ?thesis
      by (simp add: snapshot_def series_def Let_def
            take_eq[OF ls(1) True cx] take_eq[OF ls(2) True cy] take_eq[OF ls(3) True cz])
  next
    case False
    then have ge: "MAX_POINTS \<le> length pts" by simp
    then have "min (data_index s) MAX_POINTS = MAX_POINTS" using di by simp
    with False show ?thesis
      by (simp add: snapshot_def series_def Let_def di
            rot_eq[OF ls(1) MAX_POINTS_pos ge cx] rot_eq[OF ls(2) MAX_POINTS_pos ge cy]
            rot_eq[OF ls(3) MAX_POINTS_pos ge cz])
  qed
qed

lemma inserted_append:
  "inserted s (evs @ evs') = inserted s evs @ inserted (run_events s evs) evs'"
proof (induction evs arbitrary: s)
  case Nil
  show ?case by simp
next
  case (Cons ev evs)
  show ?case by (cases ev) (simp_all add: Cons.IH)
qed

lemma held_points_times:
  "map fst (held_points t0 p t n) = map (\<lambda>j. t0 + real (Suc j) * interval_s) [0..<n]"
  by (simp add: held_points_def o_def)

lemma held_points_sorted: "sorted_wrt (<) (map fst (held_points t0 p t n))"
proof -
  have "sorted_wrt (\<lambda>a b. t0 + real (Suc a) * interval_s < t0 + real (Suc b) * interval_s)
          [0..<n]"
    by (rule sorted_wrt_mono_rel[of _ "(<)"]) (use interval_pos in simp_all)
  then show ?thesis
    unfolding held_points_times by (simp add: sorted_wrt_map)
qed

lemma held_points_bounds:
  assumes "pt \<in> set (held_points t0 p t n)"
  shows "t0 < fst pt" and "fst pt \<le> t0 + real n * interval_s"
proof -
  from assms obtain j where j: "j < n" and pt: "fst pt = t0 + real (Suc j) * interval_s"
    by (auto simp: held_points_def)
  show "t0 < fst pt" using interval_pos pt by simp
  have "real (Suc j) \<le> real n" using j by simp
  then have "real (Suc j) * interval_s \<le> real n * interval_s"
    using interval_pos by (simp add: mult_right_mono)
  then show "fst pt \<le> t0 + real n * interval_s" using pt by simp
qed

lemma receive_data_fields:
  "first_data_time (receive_data s d now)
     = Some (case first_data_time s of None \<Rightarrow> now | Some f \<Rightarrow> f)"
  "last_update_time (receive_data s d now) = Some now"
  "last_p (receive_data s d now) = Some (P d)"
  "last_t (receive_data s d now) = Some (T d)"
  "plot_dirty (receive_data s d now) = True"
  "data_index (receive_data s d now) = Suc (data_index s)"
  by (simp_all add: receive_data_def Let_def split: option.splits)

lemma tick_fields:
  assumes "cache_ok s"
  shows "first_data_time (fst (update_plots s now)) = first_data_time s"
    and "last_update_time (fst (update_plots s now)) = tick_time s now"
    and "plot_dirty (fst (update_plots s now)) = False"
    and "data_index (fst (update_plots s now)) = data_index s + length (tick_points s now)"
  by (simp_all add: update_plots_char[OF assms])

lemma tick_points_cases:
  obtains (held) f u p t where "first_data_time s = Some f" "last_update_time s = Some u"
      "tick_points s now = held_points (u - f) p t (nat \<lfloor>(now - u) / interval_s\<rfloor>)"
  | (none) "tick_points s now = []"
proof (cases "first_data_time s")
  case None
  then show ?thesis using none by (simp add: tick_points_def)
next
  case f: (Some f)
  show ?thesis
  proof (cases "last_update_time s")
    case None
    then show ?thesis using none f by (simp add: tick_points_def)
  next
    case u: (Some u)
    show ?thesis
    proof (cases "last_p s")
      case None
      then show ?thesis using none f u by (simp add: tick_points_def)
    next
      case p: (Some p)
      show ?thesis
      proof (cases "last_t s")
        case None
        then show ?thesis using none f u p by (simp add: tick_points_def)
      next
        case (Some t)
        then show ?thesis using held[of f u p t] f u p by (simp add: tick_points_def)
      qed
    qed
  qed
qed

lemma tick_time_le:
  assumes "last_update_time s = Some u" "tick_points s now \<noteq> []"
  shows "tick_time s now = Some (u + real (nat \<lfloor>(now - u) / interval_s\<rfloor>) * interval_s)"
    and "u + real (nat \<lfloor>(now - u) / interval_s\<rfloor>) * interval_s \<le> now"
proof -
  show "tick_time s now = Some (u + real (nat \<lfloor>(now - u) / interval_s\<rfloor>) * interval_s)"
    using assms by (simp add: tick_time_def)
  have "nat \<lfloor>(now - u) / interval_s\<rfloor> \<noteq> 0"
    using assms by (auto simp: tick_points_def held_points_Nil split: option.splits)
  then have "u \<le> now" using floor_neg[of now u] by fastforce
  then show "u + real (nat \<lfloor>(now - u) / interval_s\<rfloor>) * interval_s \<le> now"
    by (rule floor_bounds(1))
qed

lemma wf_init: "wf_app init_app" "data_index init_app = 0"
  by (simp_all add: wf_app_def init_app_def)

lemma frame_of_fields:
  "(xs (frame_of s), y1s (frame_of s), y2s (frame_of s)) = snapshot s"
  by (simp add: frame_of_def split: prod.splits)

lemma tick_after_run:
  assumes up: "update_plots (run_events init_app evs) now = (s', fro)"
  shows "ring s' = foldl rput (ring init_app) (inserted init_app (evs @ [Tick now]))"
    and "fro = None \<or> fro = Some (frame_of s')"
    and "data_index s' = 0 \<Longrightarrow> fro = None"
proof -
  let ?s = "run_events init_app evs"
  have ok: "cache_ok ?s" by (rule cache_ok_run[OF cache_ok_init])
  note ch = update_plots_char[OF ok, of now]
  from up ch have s': "s' = (foldl put ?s (tick_points ?s now))
                          \<lparr>last_update_time := tick_time ?s now, plot_dirty := False\<rparr>"
    and fro: "fro = (if plot_dirty ?s \<or> tick_points ?s now \<noteq> []
                     then Some (frame_of (foldl put ?s (tick_points ?s now))) else None)"
    by simp_all
  have r: "ring s' = ring (foldl put ?s (tick_points ?s now))"
    by (simp add: s')
  have "ring (foldl put ?s (tick_points ?s now))
        = foldl rput (ring ?s) (tick_points ?s now)"
    by (rule ring_foldl_put)
  also have "ring ?s = foldl rput (ring init_app) (inserted init_app evs)"
    using ring_run[OF cache_ok_init, of evs] by (simp add: ring_foldl_put)
  finally show "ring s' = foldl rput (ring init_app) (inserted init_app (evs @ [Tick now]))"
    using r by (simp add: inserted_append)
  have "frame_of s' = frame_of (foldl put ?s (tick_points ?s now))"
    by (rule frame_of_cong[OF r])
  with fro show "fro = None \<or> fro = Some (frame_of s')" by simp
  show "fro = None" if z: "data_index s' = 0"
  proof -
    from z s' have "data_index ?s = 0" "tick_points ?s now = []" by simp_all
    moreover from this ok have "\<not> plot_dirty ?s" by (auto simp: cache_ok_def)
    ultimately show ?thesis using fro by simp
  qed
qed

lemma tick_frame:
  assumes up: "update_plots (run_events init_app evs) now = (s', fro)"
  shows "data_index s' = length (inserted init_app (evs @ [Tick now]))"
    and "wf_app s'"
    and "snapshot s' =
           (if data_index s' < MAX_POINTS then series (inserted init_app (evs @ [Tick now]))
            else series (drop (data_index s' - MAX_POINTS)
                           (inserted init_app (evs @ [Tick now]))))"
proof -
  note r = tick_after_run(1)[OF up]
  note S = snapshot_of_writes[OF wf_init r]
  show di: "data_index s' = length (inserted init_app (evs @ [Tick now]))" by (rule S(2))
  show "wf_app s'" by (rule S(3))
  show "snapshot s' =
           (if data_index s' < MAX_POINTS then series (inserted init_app (evs @ [Tick now]))
            else series (drop (data_index s' - MAX_POINTS)
                           (inserted init_app (evs @ [Tick now]))))"
    unfolding di by (rule S(1))
qed

lemma snapshot_prefill_def:
  "data_index s < MAX_POINTS \<Longrightarrow>
   snapshot s = (take (data_index s) (x_data s), take (data_index s) (y1_data s),
                 take (data_index s) (y2_data s))"
  by (simp add: snapshot_def Let_def)

lemma snapshot_full_def:
  "MAX_POINTS \<le> data_index s \<Longrightarrow>
   snapshot s =
     (drop (data_index s mod MAX_POINTS) (x_data s) @ take (data_index s mod MAX_POINTS) (x_data s),
      drop (data_index s mod MAX_POINTS) (y1_data s) @ take (data_index s mod MAX_POINTS) (y1_data s),
      drop (data_index s mod MAX_POINTS) (y2_data s) @ take (data_index s mod MAX_POINTS) (y2_data s))"
  by (simp add: snapshot_def Let_def)

text \<open>
  C6. Take any run from the initial state and let a tick follow it. If fewer than
  \<^const>\<open>MAX_POINTS\<close> points have been inserted in all (the counter \<open>data_index\<close> is their
  number), then a frame drawn by that tick shows the first \<open>data_index\<close> cells of each
  array, in array order, and these are exactly the inserted points in insertion order.
  With no insertion at all the tick draws nothing.
\<close>

theorem prefill_snapshot:
  assumes "update_plots (run_events init_app evs) now = (s', fro)"
    and "data_index s' < MAX_POINTS"
  shows "data_index s' = length (inserted init_app (evs @ [Tick now]))
         \<and> (data_index s' = 0 \<longrightarrow> fro = None)
         \<and> (fro = Some fr \<longrightarrow>
               xs fr = take (data_index s') (x_data s')
               \<and> y1s fr = take (data_index s') (y1_data s')
               \<and> y2s fr = take (data_index s') (y2_data s')
               \<and> (xs fr, y1s fr, y2s fr) = series (inserted init_app (evs @ [Tick now])))"
proof -
  note tf = tick_frame[OF assms(1)]
  note ta = tick_after_run[OF assms(1)]
  have a: "data_index s' = length (inserted init_app (evs @ [Tick now]))" by (rule tf(1))
  have b: "data_index s' = 0 \<longrightarrow> fro = None" using ta(3) by blast
  have c: "xs fr = take (data_index s') (x_data s')
           \<and> y1s fr = take (data_index s') (y1_data s')
           \<and> y2s fr = take (data_index s') (y2_data s')
           \<and> (xs fr, y1s fr, y2s fr) = series (inserted init_app (evs @ [Tick now]))"
    if "fro = Some fr"
  proof -
    from that ta(2) have fr: "fr = frame_of s'" by simp
    have sn: "(xs fr, y1s fr, y2s fr) = snapshot s'"
      unfolding fr by (rule frame_of_fields)
    from sn snapshot_prefill_def[OF assms(2)] tf(3) assms(2) show ?thesis by simp
  qed
  from a b c show ?thesis by blast
qed

lemma example_received:
  "first_data_time (receive_data init_app example_sample c) = Some c"
  "last_update_time (receive_data init_app example_sample c) = Some c"
  "last_p (receive_data init_app example_sample c) = Some 300.5"
  "last_t (receive_data init_app example_sample c) = Some 150.2"
  "plot_dirty (receive_data init_app example_sample c) = True"
  "data_index (receive_data init_app example_sample c) = 1"
  by (simp_all add: receive_data_def init_app_def example_sample_def Let_def)

lemma example_PT: "P example_sample = 300.5" "T example_sample = 150.2"
  by (simp_all add: example_sample_def)

lemma example_recv_point2:
  "recv_point (receive_data init_app example_sample c) example_sample c'
     = (c' - c, 300.5, 150.2)"
  by (simp add: recv_point_def example_received example_PT)

lemma example_received2:
  "first_data_time (receive_data (receive_data init_app example_sample c) example_sample c')
     = Some c"
  "last_update_time (receive_data (receive_data init_app example_sample c) example_sample c')
     = Some c'"
  "last_p (receive_data (receive_data init_app example_sample c) example_sample c')
     = Some 300.5"
  "last_t (receive_data (receive_data init_app example_sample c) example_sample c')
     = Some 150.2"
  "plot_dirty (receive_data (receive_data init_app example_sample c) example_sample c')"
  "data_index (receive_data (receive_data init_app example_sample c) example_sample c') = 2"
  by (simp_all add: receive_data_fields example_PT init_app_def)

lemma example_recv_point:
  "recv_point init_app example_sample c = (0, 300.5, 150.2)"
  by (simp add: recv_point_def init_app_def example_sample_def)

lemma tick_drawn:
  assumes "plot_dirty (run_events init_app evs)"
  shows "snd (update_plots (run_events init_app evs) now)
         = Some (frame_of (fst (update_plots (run_events init_app evs) now)))"
proof -
  let ?U = "update_plots (run_events init_app evs) now"
  have ok: "cache_ok (run_events init_app evs)" by (rule cache_ok_run[OF cache_ok_init])
  have "snd ?U \<noteq> None"
    using assms by (simp add: update_plots_char[OF ok])
  moreover have "?U = (fst ?U, snd ?U)" by simp
  ultimately show ?thesis
    using tick_after_run(2)[of evs now "fst ?U" "snd ?U"] by auto
qed

theorem prefill_snapshot_witness:
  "data_index (fst (update_plots (run_events init_app [Recv example_sample 1000]) 1000.05))
     < MAX_POINTS
   \<and> snd (update_plots (run_events init_app [Recv example_sample 1000]) 1000.05)
       = Some (frame_of (fst (update_plots (run_events init_app [Recv example_sample 1000])
                                 1000.05)))
   \<and> (xs (frame_of (fst (update_plots (run_events init_app [Recv example_sample 1000])
                            1000.05))),
       y1s (frame_of (fst (update_plots (run_events init_app [Recv example_sample 1000])
                            1000.05))),
       y2s (frame_of (fst (update_plots (run_events init_app [Recv example_sample 1000])
                            1000.05))))
      = ([0], [300.5], [150.2])"
proof -
  let ?evs = "[Recv example_sample 1000]"
  let ?U = "update_plots (run_events init_app ?evs) 1000.05"
  have run: "run_events init_app ?evs = receive_data init_app example_sample 1000"
    by simp
  have tp: "tick_points (receive_data init_app example_sample 1000) 1000.05 = []"
    by (simp add: tick_points_def example_received held_points_def interval_s_def
          DATA_COLLECTION_INTERVAL_MS_def)
  have ok: "cache_ok (run_events init_app ?evs)" by (rule cache_ok_run[OF cache_ok_init])
  have di: "data_index (fst ?U) = 1"
    using tick_fields(4)[OF ok, of "1000.05"] unfolding run tp example_received(6) by simp
  have lt: "data_index (fst ?U) < MAX_POINTS"
    unfolding di by (simp add: MAX_POINTS_def)
  have drawn: "snd ?U = Some (frame_of (fst ?U))"
    by (rule tick_drawn) (simp add: example_received)
  have U: "?U = (fst ?U, snd ?U)" by simp
  have "inserted init_app (?evs @ [Tick 1000.05])
        = recv_point init_app example_sample 1000
          # tick_points (receive_data init_app example_sample 1000) 1000.05"
    by (simp only: append.simps inserted.simps append_Nil2)
  then have ins: "inserted init_app (?evs @ [Tick 1000.05]) = [(0, 300.5, 150.2)]"
    unfolding tp example_recv_point .
  from prefill_snapshot[OF U lt, of "frame_of (fst ?U)"] drawn
  have "(xs (frame_of (fst ?U)), y1s (frame_of (fst ?U)), y2s (frame_of (fst ?U)))
        = series (inserted init_app (?evs @ [Tick 1000.05]))"
    by blast
  then have "(xs (frame_of (fst ?U)), y1s (frame_of (fst ?U)), y2s (frame_of (fst ?U)))
        = ([0], [300.5], [150.2])"
    unfolding ins by (simp add: series_def)
  with lt drawn show ?thesis by blast
qed

lemma dummy_body_index:
  "dummy_body s e = Inr s' \<Longrightarrow> data_index s' = Suc (data_index s)"
  by (auto simp: dummy_body_def Let_def split: option.splits)

lemma dummy_loop_index:
  "dummy_loop s e now a = Inr (s', b) \<Longrightarrow>
     data_index s \<le> data_index s' \<and> (b \<longleftrightarrow> a \<or> data_index s < data_index s')"
proof (induction s e now a arbitrary: s' b rule: dummy_loop.induct)
  case (1 s e now a)
  show ?case
  proof (cases "e \<le> now")
    case False
    with "1.prems" show ?thesis
      by (simp add: dummy_loop.simps[of s e now a])
  next
    case True
    show ?thesis
    proof (cases "dummy_body s e")
      case (Inl s1)
      with True "1.prems" show ?thesis
        by (simp add: dummy_loop.simps[of s e now a])
    next
      case (Inr s1)
      with True "1.prems" have r: "dummy_loop s1 (e + interval_s) now True = Inr (s', b)"
        by (simp add: dummy_loop.simps[of s e now a])
      from "1.IH"[OF True Inr r] dummy_body_index[OF Inr]
      show ?thesis by simp
    qed
  qed
qed

lemma update_plots_cases:
  obtains (raised) s' where "update_plots s now = (s', None)"
      "first_data_time s' = first_data_time s" "last_p s' = last_p s" "last_t s' = last_t s"
      "plot_dirty s' = plot_dirty s"
  | (drawn) s' where "update_plots s now = (s'\<lparr>plot_dirty := False\<rparr>, Some (frame_of s'))"
      "first_data_time s' = first_data_time s" "last_p s' = last_p s" "last_t s' = last_t s"
proof -
  let ?r = "if first_data_time s \<noteq> None \<and> last_update_time s \<noteq> None \<and> last_p s \<noteq> None
            then dummy_loop s (the (last_update_time s) + interval_s) now False
            else Inr (s, False)"
  have fr: "first_data_time s' = first_data_time s \<and> last_p s' = last_p s
            \<and> last_t s' = last_t s \<and> plot_dirty s' = plot_dirty s"
    if "?r = Inr (s', b) \<or> ?r = Inl s'" for s' b
  proof (cases "first_data_time s \<noteq> None \<and> last_update_time s \<noteq> None \<and> last_p s \<noteq> None")
    case True
    with that have "dummy_loop s (the (last_update_time s) + interval_s) now False = Inr (s', b)
       \<or> dummy_loop s (the (last_update_time s) + interval_s) now False = Inl s'"
      by simp
    then show ?thesis by (rule dummy_loop_frame)
  next
    case False
    with that have "s' = s" by (simp only: if_not_P[OF False]) auto
    then show ?thesis by simp
  qed
  show ?thesis
  proof (cases ?r)
    case (Inl s')
    then have "update_plots s now = (s', None)"
      by (simp only: update_plots_alt sum.case)
    with fr[of s'] Inl raised show ?thesis by blast
  next
    case (Inr p)
    obtain s' b where p: "p = (s', b)" by (cases p) auto
    note f = fr[of s' b]
    show ?thesis
    proof (cases "(plot_dirty s' \<or> b) \<and> min (data_index s') MAX_POINTS \<noteq> 0")
      case True
      then have "update_plots s now = (s'\<lparr>plot_dirty := False\<rparr>, Some (frame_of s'))"
        using Inr p by (simp only: update_plots_alt sum.case prod.case) auto
      with f Inr p drawn show ?thesis by blast
    next
      case False
      then have "update_plots s now = (s', None)"
        using Inr p by (simp only: update_plots_alt sum.case prod.case) auto
      with f Inr p raised show ?thesis by blast
    qed
  qed
qed

lemma update_plots_frame:
  "first_data_time (fst (update_plots s now)) = first_data_time s"
  "last_p (fst (update_plots s now)) = last_p s"
  "last_t (fst (update_plots s now)) = last_t s"
  by (cases rule: update_plots_cases[of s now]; simp)+

lemma update_plots_clears:
  "plot_dirty s \<Longrightarrow> \<not> plot_dirty (fst (update_plots s now)) \<Longrightarrow>
   snd (update_plots s now) \<noteq> None"
  by (cases rule: update_plots_cases[of s now]; simp)

lemma run_last_p:
  "last_p (run_events s evs) = (case last_recv evs of None \<Rightarrow> last_p s | Some d \<Rightarrow> Some (P d))"
proof (induction evs arbitrary: s)
  case Nil
  show ?case by simp
next
  case (Cons ev evs)
  show ?case
    by (cases ev)
      (simp_all add: Cons.IH receive_data_fields update_plots_frame split: option.splits)
qed

lemma run_last_t:
  "last_t (run_events s evs) = (case last_recv evs of None \<Rightarrow> last_t s | Some d \<Rightarrow> Some (T d))"
proof (induction evs arbitrary: s)
  case Nil
  show ?case by simp
next
  case (Cons ev evs)
  show ?case
    by (cases ev)
      (simp_all add: Cons.IH receive_data_fields update_plots_frame split: option.splits)
qed

lemma run_first:
  "first_data_time (run_events s evs)
   = (case first_data_time s of None \<Rightarrow> first_recv_time evs | Some f \<Rightarrow> Some f)"
proof (induction evs arbitrary: s)
  case Nil
  show ?case by (simp split: option.splits)
next
  case (Cons ev evs)
  show ?case
    by (cases ev)
      (simp_all add: Cons.IH receive_data_fields update_plots_frame split: option.splits)
qed

text \<open>
  C9. The synthesis loop never touches the last-known-value cache: however it ends, only
  the arrays, \<open>data_index\<close> and \<open>last_update_time\<close> may differ from the state it started
  in (the cache, the anchor and the dirty flag are as before). A whole tick keeps the
  cache as well. Hence after any run of real insertions and ticks from the initial state
  \<open>last_p\<close> and \<open>last_t\<close> are the pressure and temperature of the most recent real
  sample, and \<^const>\<open>None\<close> while there is none.
\<close>

theorem last_value_cache:
  "(case dummy_loop s e now a of
      Inl s' \<Rightarrow> last_p s' = last_p s \<and> last_t s' = last_t s
               \<and> first_data_time s' = first_data_time s \<and> plot_dirty s' = plot_dirty s
    | Inr (s', b) \<Rightarrow> last_p s' = last_p s \<and> last_t s' = last_t s
               \<and> first_data_time s' = first_data_time s \<and> plot_dirty s' = plot_dirty s)
   \<and> last_p (fst (update_plots s now)) = last_p s
   \<and> last_t (fst (update_plots s now)) = last_t s
   \<and> last_p (run_events init_app evs) = map_option P (last_recv evs)
   \<and> last_t (run_events init_app evs) = map_option T (last_recv evs)"
proof -
  have loop: "(case dummy_loop s e now a of
      Inl s' \<Rightarrow> last_p s' = last_p s \<and> last_t s' = last_t s
               \<and> first_data_time s' = first_data_time s \<and> plot_dirty s' = plot_dirty s
    | Inr (s', b) \<Rightarrow> last_p s' = last_p s \<and> last_t s' = last_t s
               \<and> first_data_time s' = first_data_time s \<and> plot_dirty s' = plot_dirty s)"
  proof (cases "dummy_loop s e now a")
    case (Inl s')
    with dummy_loop_frame[of s e now a s' undefined] show ?thesis by simp
  next
    case (Inr p)
    obtain s' b where "p = (s', b)" by (cases p) auto
    with Inr dummy_loop_frame[of s e now a s' b] show ?thesis by simp
  qed
  have p: "last_p (run_events init_app evs) = map_option P (last_recv evs)"
    by (simp add: run_last_p init_app_def split: option.splits)
  have t: "last_t (run_events init_app evs) = map_option T (last_recv evs)"
    by (simp add: run_last_t init_app_def split: option.splits)
  from loop p t show ?thesis
    by (simp add: update_plots_frame)
qed

theorem last_value_cache_witness:
  "last_p (run_events init_app [Recv example_sample 1000, Tick 1000.35]) = Some 300.5
   \<and> last_t (run_events init_app [Recv example_sample 1000, Tick 1000.35]) = Some 150.2"
proof -
  note w = last_value_cache[where evs = "[Recv example_sample 1000, Tick 1000.35]",
      THEN conjunct2, THEN conjunct2, THEN conjunct2]
  have lr: "last_recv [Recv example_sample 1000, Tick 1000.35] = Some example_sample"
    by simp
  show ?thesis
    unfolding w[THEN conjunct1] w[THEN conjunct2] lr by (simp add: example_PT)
qed

text \<open>
  C10. The anchor \<open>first_data_time\<close> is written by \<^verbatim>\<open>receive_data\<close> only while it is
  \<^const>\<open>None\<close>, with that call's clock reading; a tick and its loop never write it. So
  in a run from the initial state it is the clock reading of the first real sample, and
  once set it stays through any further calls. The relative time stored by a real
  insertion and by one loop iteration is the distance of its time from this anchor.
\<close>

theorem anchor_written_once:
  "first_data_time (receive_data s d now)
     = (case first_data_time s of None \<Rightarrow> Some now | Some f \<Rightarrow> Some f)
   \<and> first_data_time (fst (update_plots s now)) = first_data_time s
   \<and> first_data_time (run_events init_app evs) = first_recv_time evs
   \<and> (first_data_time s = Some f \<longrightarrow> first_data_time (run_events s evs) = Some f)
   \<and> (wf_app s \<longrightarrow>
         first_data_time (receive_data s d now)
         = Some (now - x_data (receive_data s d now) ! (data_index s mod MAX_POINTS)))
   \<and> (wf_app s \<longrightarrow> dummy_body s e = Inr s' \<longrightarrow>
         first_data_time s' = first_data_time s
         \<and> first_data_time s' = Some (e - x_data s' ! (data_index s mod MAX_POINTS)))"
proof -
  have idx: "data_index s mod MAX_POINTS < MAX_POINTS" using MAX_POINTS_pos by simp
  have a: "first_data_time (receive_data s d now)
     = (case first_data_time s of None \<Rightarrow> Some now | Some f \<Rightarrow> Some f)"
    by (simp add: receive_data_fields split: option.splits)
  have b: "first_data_time (run_events init_app evs) = first_recv_time evs"
    by (simp add: run_first init_app_def)
  have c: "first_data_time (run_events s evs) = Some f" if "first_data_time s = Some f"
    using that by (simp add: run_first)
  have d: "first_data_time (receive_data s d now)
         = Some (now - x_data (receive_data s d now) ! (data_index s mod MAX_POINTS))"
    if "wf_app s"
    using that idx by (simp add: receive_data_def Let_def wf_app_def split: option.splits)
  have e: "first_data_time s' = first_data_time s
         \<and> first_data_time s' = Some (e - x_data s' ! (data_index s mod MAX_POINTS))"
    if "wf_app s" "dummy_body s e = Inr s'"
    using that idx by (auto simp: dummy_body_def Let_def wf_app_def split: option.splits)
  have u: "first_data_time (fst (update_plots s now)) = first_data_time s"
    by (rule update_plots_frame)
  from a u b c d e show ?thesis
    by blast
qed

theorem anchor_written_once_witness:
  "first_data_time (run_events init_app
      [Tick 999, Recv example_sample 1000, Tick 1000.35, Recv example_sample 1000.4])
   = Some 1000"
proof -
  note w = anchor_written_once[where evs =
      "[Tick 999, Recv example_sample 1000, Tick 1000.35, Recv example_sample 1000.4]",
      THEN conjunct2, THEN conjunct2, THEN conjunct1]
  show ?thesis
    unfolding w by simp
qed

lemma tick_redraw_iff:
  assumes "cache_ok s"
  shows "snd (update_plots s now) \<noteq> None
         \<longleftrightarrow> plot_dirty s \<or> data_index s < data_index (fst (update_plots s now))"
  by (simp add: update_plots_char[OF assms])

text \<open>
  C4, as amended. A real insertion sets \<open>plot_dirty\<close>. A synthetic insertion does not
  assign it: the loop leaves \<open>plot_dirty\<close> as it was and records the insertion in the
  tick's local flag \<open>added_dummy\<close>, which is up exactly when the loop was entered with
  it up or wrote a point. The tick draws when either flag is up, and \<open>plot_dirty\<close> only
  goes from up to down in a tick that requests a redraw. In every state of a run a tick
  leaves \<open>plot_dirty\<close> down and draws exactly when a real sample came since the last
  tick or the tick itself synthesised a point; so a tick right after a tick, with no
  insertion of its own, requests no redraw and changes nothing.
\<close>

theorem dirty_flag_discipline:
  "plot_dirty (receive_data s d now)
   \<and> (case dummy_loop s e now a of
         Inl s' \<Rightarrow> plot_dirty s' = plot_dirty s
       | Inr (s', b) \<Rightarrow>
           plot_dirty s' = plot_dirty s \<and> (b \<longleftrightarrow> a \<or> data_index s < data_index s'))
   \<and> (plot_dirty s \<longrightarrow> \<not> plot_dirty (fst (update_plots s now)) \<longrightarrow>
         snd (update_plots s now) \<noteq> None)
   \<and> cache_ok (run_events init_app evs)
   \<and> (cache_ok s \<longrightarrow>
         \<not> plot_dirty (fst (update_plots s now))
         \<and> (snd (update_plots s now) \<noteq> None
              \<longleftrightarrow> plot_dirty s \<or> data_index s < data_index (fst (update_plots s now)))
         \<and> (data_index (fst (update_plots (fst (update_plots s now)) now'))
               = data_index (fst (update_plots s now)) \<longrightarrow>
             update_plots (fst (update_plots s now)) now'
               = (fst (update_plots s now), None)))"
proof -
  have a: "plot_dirty (receive_data s d now)"
    by (simp add: receive_data_fields)
  have b: "(case dummy_loop s e now a of
         Inl s' \<Rightarrow> plot_dirty s' = plot_dirty s
       | Inr (s', b) \<Rightarrow>
           plot_dirty s' = plot_dirty s \<and> (b \<longleftrightarrow> a \<or> data_index s < data_index s'))"
  proof (cases "dummy_loop s e now a")
    case (Inl s')
    with dummy_loop_frame[of s e now a s' undefined] show ?thesis by simp
  next
    case (Inr p)
    obtain s' b where "p = (s', b)" by (cases p) auto
    with Inr dummy_loop_frame[of s e now a s' b] dummy_loop_index[of s e now a s' b]
    show ?thesis by simp
  qed
  have c: "plot_dirty s \<longrightarrow> \<not> plot_dirty (fst (update_plots s now)) \<longrightarrow>
         snd (update_plots s now) \<noteq> None"
    using update_plots_clears[of s now] by blast
  have d: "cache_ok (run_events init_app evs)"
    by (rule cache_ok_run[OF cache_ok_init])
  have e: "\<not> plot_dirty (fst (update_plots s now))
         \<and> (snd (update_plots s now) \<noteq> None
              \<longleftrightarrow> plot_dirty s \<or> data_index s < data_index (fst (update_plots s now)))
         \<and> (data_index (fst (update_plots (fst (update_plots s now)) now'))
               = data_index (fst (update_plots s now)) \<longrightarrow>
             update_plots (fst (update_plots s now)) now'
               = (fst (update_plots s now), None))"
    if ok: "cache_ok s"
  proof -
    let ?s1 = "fst (update_plots s now)"
    have ok1: "cache_ok ?s1" by (rule cache_ok_update_plots[OF ok])
    have nd: "\<not> plot_dirty ?s1" by (simp add: tick_fields[OF ok])
    have same: "update_plots ?s1 now' = (?s1, None)"
      if "data_index (fst (update_plots ?s1 now')) = data_index ?s1"
    proof -
      from that have tp: "tick_points ?s1 now' = []"
        by (simp add: tick_fields(4)[OF ok1])
      show ?thesis
        using nd by (simp add: update_plots_char[OF ok1] tp tick_time_Nil)
    qed
    from nd tick_redraw_iff[OF ok, of now] same show ?thesis by blast
  qed
  from a b c d e show ?thesis by blast
qed

lemma tick_points_eval:
  assumes "first_data_time s = Some f" "last_update_time s = Some u"
    "last_p s = Some p" "last_t s = Some t"
  shows "tick_points s now = held_points (u - f) p t (nat \<lfloor>(now - u) / interval_s\<rfloor>)"
  using assms by (simp add: tick_points_def)

lemma example_rendered:
  "first_data_time (fst (update_plots (receive_data init_app example_sample 1000) 1000.05))
     = Some 1000"
  "last_update_time (fst (update_plots (receive_data init_app example_sample 1000) 1000.05))
     = Some 1000"
  "last_p (fst (update_plots (receive_data init_app example_sample 1000) 1000.05))
     = Some 300.5"
  "last_t (fst (update_plots (receive_data init_app example_sample 1000) 1000.05))
     = Some 150.2"
  "plot_dirty (fst (update_plots (receive_data init_app example_sample 1000) 1000.05))
     = False"
  "data_index (fst (update_plots (receive_data init_app example_sample 1000) 1000.05)) = 1"
proof -
  let ?s = "receive_data init_app example_sample 1000"
  have ok: "cache_ok ?s" by (rule cache_ok_receive_data)
  have tp: "tick_points ?s 1000.05 = []"
    by (simp add: tick_points_def example_received held_points_def interval_s_def
          DATA_COLLECTION_INTERVAL_MS_def)
  note tf = tick_fields[OF ok, of "1000.05"]
  show "first_data_time (fst (update_plots ?s 1000.05)) = Some 1000"
    unfolding tf(1) by (rule example_received)
  show "last_update_time (fst (update_plots ?s 1000.05)) = Some 1000"
    unfolding tf(2) tick_time_Nil[OF tp] by (rule example_received)
  show "last_p (fst (update_plots ?s 1000.05)) = Some 300.5"
    unfolding update_plots_frame by (rule example_received)
  show "last_t (fst (update_plots ?s 1000.05)) = Some 150.2"
    unfolding update_plots_frame by (rule example_received)
  show "plot_dirty (fst (update_plots ?s 1000.05)) = False"
    unfolding tf(3) ..
  show "data_index (fst (update_plots ?s 1000.05)) = 1"
    unfolding tf(4) tp example_received(6) by simp
qed

theorem dirty_flag_discipline_witness:
  "plot_dirty (receive_data init_app example_sample 1000)
   \<and> \<not> plot_dirty (fst (update_plots (receive_data init_app example_sample 1000) 1000.05))
   \<and> snd (update_plots (receive_data init_app example_sample 1000) 1000.05) \<noteq> None
   \<and> snd (update_plots
           (fst (update_plots (receive_data init_app example_sample 1000) 1000.05))
           1000.07) = None"
proof -
  let ?s = "receive_data init_app example_sample 1000"
  let ?s1 = "fst (update_plots ?s 1000.05)"
  have ok: "cache_ok ?s" by (rule cache_ok_receive_data)
  have ok1: "cache_ok ?s1" by (rule cache_ok_update_plots[OF ok])
  have tp: "tick_points ?s1 1000.07 = []"
    unfolding tick_points_eval[OF example_rendered(1,2,3,4)]
    by (simp add: held_points_def interval_s_def DATA_COLLECTION_INTERVAL_MS_def)
  have same: "data_index (fst (update_plots ?s1 1000.07)) = data_index ?s1"
    unfolding tick_fields(4)[OF ok1] tp by simp
  note w = dirty_flag_discipline[where s = ?s and now = "1000.05" and now' = "1000.07"]
  from w ok same have "update_plots ?s1 1000.07 = (?s1, None)" by blast
  then have last: "snd (update_plots ?s1 1000.07) = None" by simp
  from w ok have "\<not> plot_dirty ?s1" by blast
  moreover from w ok have "snd (update_plots ?s 1000.05) \<noteq> None"
    using example_received(5)[of 1000] by blast
  ultimately show ?thesis
    using last example_received(5)[of 1000] by blast
qed

text \<open>
  As the claim is worded, every synthetic insertion would set the dirty flag. After a
  sample at 1000 and a tick at 1000.05 that drew it, the loop run at 1000.1 writes one
  synthetic point and ends with \<open>plot_dirty\<close> still down.
\<close>

theorem dirty_flag_discipline_counterexample:
  "(case dummy_loop
           (fst (update_plots (receive_data init_app example_sample 1000) 1000.05))
           (1000 + interval_s) 1000.1 False of
      Inl s' \<Rightarrow> False
    | Inr (s', added_dummy) \<Rightarrow>
        data_index (fst (update_plots (receive_data init_app example_sample 1000) 1000.05))
          < data_index s'
        \<and> added_dummy \<and> \<not> plot_dirty s')"
proof -
  define s1 where "s1 = fst (update_plots (receive_data init_app example_sample 1000) 1000.05)"
  have v: "first_data_time s1 = Some 1000" "last_update_time s1 = Some 1000"
    "last_p s1 = Some 300.5" "last_t s1 = Some 150.2"
    unfolding s1_def by (rule example_rendered)+
  have w: "plot_dirty s1 = False" "data_index s1 = 1"
    unfolding s1_def by (rule example_rendered)+
  have tp: "length (tick_points s1 1000.1) = 1"
    unfolding tick_points_eval[OF v]
    by (simp add: held_points_def interval_s_def DATA_COLLECTION_INTERVAL_MS_def)
  then have ne: "tick_points s1 1000.1 \<noteq> []" by auto
  have "dummy_loop s1 (1000 + interval_s) 1000.1 False
        = Inr ((foldl put s1 (tick_points s1 1000.1))
                 \<lparr>last_update_time := tick_time s1 1000.1\<rparr>,
               tick_points s1 1000.1 \<noteq> [])"
    by (rule dummy_loop_tick[OF v])
  then have "(case dummy_loop s1 (1000 + interval_s) 1000.1 False of
      Inl s' \<Rightarrow> False
    | Inr (s', added_dummy) \<Rightarrow>
        data_index s1 < data_index s' \<and> added_dummy \<and> \<not> plot_dirty s')"
    using ne tp w by simp
  then show ?thesis
    unfolding s1_def .
qed

lemma starts_with_iff: "starts_with w s \<longleftrightarrow> (\<exists>suf. s = w @ suf)"
  by (induction w s rule: starts_with.induct) auto

lemma py_in_iff: "py_in w s \<longleftrightarrow> (\<exists>pre suf. s = pre @ w @ suf)"
proof (induction s)
  case Nil
  show ?case by auto
next
  case (Cons c s)
  have "(\<exists>pre suf. c # s = pre @ w @ suf)
        \<longleftrightarrow> (\<exists>suf. c # s = w @ suf) \<or> (\<exists>pre suf. s = pre @ w @ suf)"
  proof
    assume "\<exists>pre suf. c # s = pre @ w @ suf"
    then obtain pre suf where e: "c # s = pre @ w @ suf" by blast
    show "(\<exists>suf. c # s = w @ suf) \<or> (\<exists>pre suf. s = pre @ w @ suf)"
    proof (cases pre)
      case Nil
      with e show ?thesis by auto
    next
      case (Cons d pre')
      with e have "s = pre' @ w @ suf" by simp
      then show ?thesis by blast
    qed
  next
    assume "(\<exists>suf. c # s = w @ suf) \<or> (\<exists>pre suf. s = pre @ w @ suf)"
    then show "\<exists>pre suf. c # s = pre @ w @ suf"
    proof
      assume "\<exists>suf. c # s = w @ suf"
      then obtain suf where "c # s = [] @ w @ suf" by auto
      then show ?thesis by blast
    next
      assume "\<exists>pre suf. s = pre @ w @ suf"
      then obtain pre suf where "c # s = (c # pre) @ w @ suf" by auto
      then show ?thesis by blast
    qed
  qed
  then show ?case
    by (simp add: Cons.IH starts_with_iff)
qed

lemma any_in_iff:
  "list_ex (\<lambda>word. py_in word estado) ws
   \<longleftrightarrow> (\<exists>w\<in>set ws. \<exists>pre suf. estado = pre @ w @ suf)"
  by (simp add: list_ex_iff py_in_iff)

lemma status_style:
  "update_label_styles labels esd estado ''status'' =
     Some (severity_style
       (if list_ex (\<lambda>word. py_in word estado) [''Alivio'', ''Purga'', ''Emergencia'']
        then Critical
        else if list_ex (\<lambda>word. py_in word estado)
                  [''Advertencia'', ''Recuperaci'' @ [CHR 0xF3] @ ''n'', ''Precalentamiento'']
        then Warning else Nominal))"
  by (simp add: update_label_styles_def Let_def)

text \<open>
  C8. For every state string the style sheet that \<^verbatim>\<open>update_label_styles\<close> gives the
  status label is the one of the tier critical when the string contains one of the
  keywords Alivio, Purga, Emergencia (relief, purge, emergency); otherwise of the tier
  warning when it contains one of Advertencia, Recuperacion (with its accent),
  Precalentamiento (warning, recovery, preheat); otherwise of the tier nominal. The
  critical keywords are tested first. The string "Operando Normal" is nominal, and the
  three style sheets differ, so the style determines the tier.
\<close>

theorem severity_classification:
  "update_label_styles labels esd estado ''status'' =
     Some (severity_style
       (if \<exists>w\<in>set [''Alivio'', ''Purga'', ''Emergencia''].
             \<exists>pre suf. estado = pre @ w @ suf
        then Critical
        else if \<exists>w\<in>set [''Advertencia'', ''Recuperaci'' @ [CHR 0xF3] @ ''n'',
                           ''Precalentamiento''].
                  \<exists>pre suf. estado = pre @ w @ suf
        then Warning else Nominal))
   \<and> update_label_styles labels esd ''Operando Normal'' ''status''
       = Some (severity_style Nominal)
   \<and> distinct [severity_style Critical, severity_style Warning, severity_style Nominal]"
proof -
  have a: "update_label_styles labels esd estado ''status'' =
     Some (severity_style
       (if \<exists>w\<in>set [''Alivio'', ''Purga'', ''Emergencia''].
             \<exists>pre suf. estado = pre @ w @ suf
        then Critical
        else if \<exists>w\<in>set [''Advertencia'', ''Recuperaci'' @ [CHR 0xF3] @ ''n'',
                           ''Precalentamiento''].
                  \<exists>pre suf. estado = pre @ w @ suf
        then Warning else Nominal))"
    unfolding status_style any_in_iff ..
  have b: "update_label_styles labels esd ''Operando Normal'' ''status''
       = Some (severity_style Nominal)"
    unfolding status_style by simp
  have c: "distinct [severity_style Critical, severity_style Warning, severity_style Nominal]"
    by simp
  from a b c show ?thesis by blast
qed

theorem severity_classification_witness:
  "update_label_styles Map.empty ''Normal'' ''Alivio de Presion'' ''status''
     = Some (severity_style Critical)
   \<and> update_label_styles Map.empty ''Normal'' ''Precalentamiento'' ''status''
     = Some (severity_style Warning)
   \<and> update_label_styles Map.empty ''Normal'' ''Advertencia: Purga'' ''status''
     = Some (severity_style Critical)"
proof -
  have c1: "\<exists>w\<in>set [''Alivio'', ''Purga'', ''Emergencia''].
             \<exists>pre suf. ''Alivio de Presion'' = pre @ w @ suf"
    unfolding any_in_iff[symmetric] by simp
  have c2: "\<not> (\<exists>w\<in>set [''Alivio'', ''Purga'', ''Emergencia''].
             \<exists>pre suf. ''Precalentamiento'' = pre @ w @ suf)"
    unfolding any_in_iff[symmetric] by simp
  have c3: "\<exists>w\<in>set [''Advertencia'', ''Recuperaci'' @ [CHR 0xF3] @ ''n'',
                           ''Precalentamiento''].
             \<exists>pre suf. ''Precalentamiento'' = pre @ w @ suf"
    unfolding any_in_iff[symmetric] by simp
  have c4: "\<exists>w\<in>set [''Alivio'', ''Purga'', ''Emergencia''].
             \<exists>pre suf. ''Advertencia: Purga'' = pre @ w @ suf"
    unfolding any_in_iff[symmetric] by simp
  note w = severity_classification[THEN conjunct1]
  show ?thesis
    using w[of Map.empty "''Normal''" "''Alivio de Presion''"]
      w[of Map.empty "''Normal''" "''Precalentamiento''"]
      w[of Map.empty "''Normal''" "''Advertencia: Purga''"]
    by (simp only: c1 c2 c3 c4 if_True if_False simp_thms)
qed

lemma run_stopped: "\<not> running r \<Longrightarrow> run r rs = (r, [], rs)"
  by (cases rs) simp_all

lemma run_until_serial_error:
  assumes "running r" and "SerialException \<notin> set pre"
  shows "run r (pre @ SerialException # post)
         = (r\<lparr>running := False\<rparr>, List.map_filter emitted_of pre, post)"
  using assms
proof (induction pre)
  case Nil
  then show ?case by (simp add: run_stopped List.map_filter_simps)
next
  case (Cons x pre)
  then have IH: "run r (pre @ SerialException # post)
         = (r\<lparr>running := False\<rparr>, List.map_filter emitted_of pre, post)"
    by simp
  show ?case
  proof (cases x)
    case (Line l)
    show ?thesis
    proof (cases "emitted_of (Line l)")
      case None
      with Line Cons.prems IH show ?thesis
        by (simp add: List.map_filter_simps del: emitted_of.simps)
    next
      case (Some d)
      with Line Cons.prems IH show ?thesis
        by (simp add: List.map_filter_simps del: emitted_of.simps)
    qed
  next
    case SerialException
    with Cons.prems show ?thesis by simp
  next
    case OtherException
    with Cons.prems IH show ?thesis
      by (simp add: List.map_filter_simps)
  qed
qed

lemma run_no_error:
  assumes "running r" and "SerialException \<notin> set rs"
  shows "run r rs = (r, List.map_filter emitted_of rs, [])"
  using assms
proof (induction rs)
  case Nil
  then show ?case by (simp add: List.map_filter_simps)
next
  case (Cons x rs)
  then have IH: "run r rs = (r, List.map_filter emitted_of rs, [])" by simp
  show ?case
  proof (cases x)
    case (Line l)
    show ?thesis
    proof (cases "emitted_of (Line l)")
      case None
      with Line Cons.prems IH show ?thesis
        by (simp add: List.map_filter_simps del: emitted_of.simps)
    next
      case (Some d)
      with Line Cons.prems IH show ?thesis
        by (simp add: List.map_filter_simps del: emitted_of.simps)
    qed
  next
    case SerialException
    with Cons.prems show ?thesis by simp
  next
    case OtherException
    with Cons.prems IH show ?thesis
      by (simp add: List.map_filter_simps)
  qed
qed

lemma parse_example_line: "parse_data example_line = Some example_sample"
  by code_simp

lemma emitted_example: "emitted_of (Line example_line) = Some example_sample"
proof -
  have "strip example_line = example_line" by code_simp
  moreover have "example_line \<noteq> []" by (simp add: example_line_def)
  ultimately show ?thesis by (simp add: parse_example_line)
qed

lemma emitted_garbage: "emitted_of (Line ''garbage'') = None"
  by code_simp

text \<open>
  C7, as amended. When a read raises \<^verbatim>\<open>serial.SerialException\<close> while the loop runs,
  the loop ends there: \<open>running\<close> is down, the samples emitted are those of the reads
  before the error, and no later read is consumed, so nothing is retried and, once
  stopped, the reader emits nothing later. The loop itself leaves the port as it was; it
  is \<^verbatim>\<open>stop\<close> that closes an open port. Any other exception is caught and the loop
  goes on with the next read.
\<close>

theorem fail_stop_reader:
  assumes "running r" and "SerialException \<notin> set pre"
  shows "run r (pre @ SerialException # post)
           = (r\<lparr>running := False\<rparr>, List.map_filter emitted_of pre, post)
         \<and> run (r\<lparr>running := False\<rparr>) later = (r\<lparr>running := False\<rparr>, [], later)
         \<and> ser (fst (run r (pre @ SerialException # post))) = ser r
         \<and> ser (stop (fst (run r (pre @ SerialException # post))))
             = (if ser r = Some True then Some False else ser r)
         \<and> run r (OtherException # rest) = run r rest"
proof -
  have a: "run r (pre @ SerialException # post)
           = (r\<lparr>running := False\<rparr>, List.map_filter emitted_of pre, post)"
    by (rule run_until_serial_error[OF assms])
  have b: "run (r\<lparr>running := False\<rparr>) later = (r\<lparr>running := False\<rparr>, [], later)"
    by (rule run_stopped) simp
  have c: "ser (stop (r\<lparr>running := False\<rparr>)) = (if ser r = Some True then Some False else ser r)"
    by (simp add: stop_def Let_def)
  have d: "run r (OtherException # rest) = run r rest"
    using assms(1) by simp
  from a b c d show ?thesis by simp
qed

theorem fail_stop_reader_witness:
  "run (init_reader True)
       ([Line example_line, OtherException, Line ''garbage''] @ SerialException
          # [Line example_line])
     = ((init_reader True)\<lparr>running := False\<rparr>, [example_sample], [Line example_line])"
proof -
  have r: "running (init_reader True)" by (simp add: init_reader_def)
  have n: "SerialException \<notin> set [Line example_line, OtherException, Line ''garbage'']"
    by simp
  have m: "List.map_filter emitted_of [Line example_line, OtherException, Line ''garbage'']
           = [example_sample]"
    by (simp add: List.map_filter_simps emitted_example emitted_garbage
          del: emitted_of.simps(1))
  from fail_stop_reader[OF r n, of "[Line example_line]"] show ?thesis
    unfolding m by blast
qed

text \<open>
  The loop does not release the connection: after a \<^verbatim>\<open>SerialException\<close> on the first
  read the loop has ended and the port of the reader is still open.
\<close>

theorem fail_stop_reader_counterexample:
  "\<not> running (fst (run (init_reader True) [SerialException]))
   \<and> ser (fst (run (init_reader True) [SerialException])) = Some True"
  by (simp add: init_reader_def)

lemma match_here_Lit:
  "match_here (Lit l # its) (l @ s) = match_here its s"
  by (simp add: starts_with_iff)

lemma try_lengths_first:
  "k (drop n s) = Some gs \<Longrightarrow> 0 < n \<Longrightarrow> try_lengths k s n = Some (take n s # gs)"
  by (cases n) simp_all

lemma takeWhile_group:
  assumes "list_all c g" and "s = [] \<or> \<not> c (hd s)"
  shows "takeWhile c (g @ s) = g"
proof -
  have "takeWhile c s = []" using assms(2) by (cases s) auto
  with assms(1) show ?thesis by (simp add: takeWhile_append2 list_all_iff)
qed

lemma match_here_Grp:
  assumes "g \<noteq> []" and "list_all c g" and "s = [] \<or> \<not> c (hd s)"
    and "match_here its s = Some gs"
  shows "match_here (Grp c # its) (g @ s) = Some (g # gs)"
proof -
  have n: "length (takeWhile c (g @ s)) = length g"
    by (simp add: takeWhile_group[OF assms(2,3)])
  have "try_lengths (match_here its) (g @ s) (length g) = Some (take (length g) (g @ s) # gs)"
    by (rule try_lengths_first) (use assms in simp_all)
  then show ?thesis by (simp add: n)
qed

lemma delimited_tail: "delimited (Grp c # its) \<Longrightarrow> delimited its"
  by (cases "(Grp c # its)" rule: delimited.cases) auto

lemma build_head:
  assumes "delimited (Grp c # its)"
  shows "build its gs = [] \<or> \<not> c (hd (build its gs))"
  using assms by (cases "(Grp c # its)" rule: delimited.cases) auto

lemma match_here_complete:
  "delimited its \<Longrightarrow> fits its gs \<Longrightarrow> match_here its (build its gs) = Some gs"
proof (induction its gs rule: build.induct)
  case (1 gs)
  then show ?case by simp
next
  case (2 l its gs)
  then have "match_here its (build its gs) = Some gs" by simp
  then show ?case
    using match_here_Lit[of l its "build its gs"] by simp
next
  case (3 c its)
  then show ?case by simp
next
  case (4 c its g gs)
  from "4.prems" have d: "delimited its" by (auto dest: delimited_tail)
  from "4.prems" have f: "g \<noteq> []" "list_all c g" "fits its gs" by simp_all
  have m: "match_here its (build its gs) = Some gs" by (rule "4.IH"[OF d f(3)])
  have h: "build its gs = [] \<or> \<not> c (hd (build its gs))"
    by (rule build_head[OF "4.prems"(1)])
  show ?case
    using match_here_Grp[OF f(1,2) h m] by simp
qed

lemma re_search_here: "match_here its s = Some gs \<Longrightarrow> re_search its s = Some gs"
  by (cases s) simp_all

lemma try_lengths_sound:
  "try_lengths k s n = Some r \<Longrightarrow>
     \<exists>j gs. 0 < j \<and> j \<le> n \<and> k (drop j s) = Some gs \<and> r = take j s # gs"
proof (induction n)
  case 0
  then show ?case by simp
next
  case (Suc n)
  show ?case
  proof (cases "k (drop (Suc n) s)")
    case None
    with Suc.prems have "try_lengths k s n = Some r" by simp
    from Suc.IH[OF this] show ?thesis by (metis le_SucI)
  next
    case (Some gs)
    with Suc.prems have "r = take (Suc n) s # gs" by simp
    with Some show ?thesis by blast
  qed
qed

lemma take_of_run:
  assumes "0 < j" "j \<le> length (takeWhile c s)"
  shows "take j s \<noteq> []" and "list_all c (take j s)"
proof -
  have le: "length (takeWhile c s) \<le> length s" by (rule length_takeWhile_le)
  with assms show "take j s \<noteq> []" by (cases s) auto
  have "take j s = take j (takeWhile c s @ dropWhile c s)" by simp
  also have "\<dots> = take j (takeWhile c s)" using assms(2) by (simp del: takeWhile_dropWhile_id)
  finally have "set (take j s) \<subseteq> set (takeWhile c s)"
    by (simp add: set_take_subset)
  then show "list_all c (take j s)"
    by (auto simp: list_all_iff dest: set_takeWhileD)
qed

lemma match_here_sound:
  "match_here its s = Some gs \<Longrightarrow> fits its gs \<and> (\<exists>suf. s = build its gs @ suf)"
proof (induction its arbitrary: s gs)
  case Nil
  then show ?case by simp
next
  case (Cons it its)
  show ?case
  proof (cases it)
    case (Lit l)
    with Cons.prems have sw: "starts_with l s"
      and m: "match_here its (drop (length l) s) = Some gs"
      by (simp_all split: if_splits)
    from sw obtain s' where s: "s = l @ s'" by (auto simp: starts_with_iff)
    from Cons.IH[OF m] s Lit show ?thesis by auto
  next
    case (Grp c)
    with Cons.prems have "try_lengths (match_here its) s (length (takeWhile c s)) = Some gs"
      by simp
    from try_lengths_sound[OF this] obtain j gs' where j: "0 < j" "j \<le> length (takeWhile c s)"
      and m: "match_here its (drop j s) = Some gs'" and gs: "gs = take j s # gs'"
      by blast
    from Cons.IH[OF m] obtain suf where f: "fits its gs'" and d: "drop j s = build its gs' @ suf"
      by blast
    have "take j s @ drop j s = s" by (rule append_take_drop_id)
    then have "take j s @ build its gs' @ suf = s" unfolding d .
    then have b: "s = build (Grp c # its) gs @ suf"
      unfolding gs by simp
    have "fits (Grp c # its) gs"
      unfolding gs using f take_of_run[OF j] by simp
    with b show ?thesis unfolding Grp by blast
  qed
qed

lemma re_search_sound:
  "re_search its s = Some gs \<Longrightarrow> fits its gs \<and> (\<exists>pre suf. s = pre @ build its gs @ suf)"
proof (induction s)
  case Nil
  from match_here_sound[of its "[]" gs] Nil show ?case by auto
next
  case (Cons c s)
  show ?case
  proof (cases "match_here its (c # s)")
    case (Some gs')
    with Cons.prems have "match_here its (c # s) = Some gs" by simp
    from match_here_sound[OF this] show ?thesis by (metis append_Nil)
  next
    case None
    with Cons.prems have "re_search its s = Some gs" by simp
    from Cons.IH[OF this] obtain pre suf where "fits its gs" "s = pre @ build its gs @ suf"
      by blast
    then have "fits its gs" "c # s = (c # pre) @ build its gs @ suf" by simp_all
    then show ?thesis by blast
  qed
qed

lemma comma_outside:
  "\<not> cls_num CHR '',''" "\<not> is_word CHR '',''" "\<not> cls_estado CHR '',''"
  by code_simp+

lemma delimited_patron: "delimited patron"
  by (simp add: patron_def comma_outside)

lemma wire_line_build:
  "wire_line (p, t, mv, sh) (f, m, esd, estado, relief, purge)
   = build patron [p, t, mv, sh, f, m, esd, estado, relief, purge]"
  by (simp add: patron_def)

lemma fits_patron:
  "fits patron [p, t, mv, sh, f, m, esd, estado, relief, purge]
   \<longleftrightarrow> numeric_text p \<and> numeric_text t \<and> numeric_text mv \<and> numeric_text sh
       \<and> token f \<and> token m \<and> token esd \<and> state_text estado \<and> token relief \<and> token purge"
  by (simp add: patron_def numeric_text_def token_def state_text_def)

lemma fits_length:
  "fits its gs \<Longrightarrow>
   length gs = length (filter (\<lambda>it. case it of Grp c \<Rightarrow> True | Lit l \<Rightarrow> False) its)"
  by (induction its gs rule: fits.induct) simp_all

lemma fits_patron_length:
  assumes "fits patron gs"
  obtains g1 g2 g3 g4 g5 g6 g7 g8 g9 g10
  where "gs = [g1, g2, g3, g4, g5, g6, g7, g8, g9, g10]"
proof -
  from fits_length[OF assms] have "length gs = 10" by (simp add: patron_def)
  then have "\<exists>g1 g2 g3 g4 g5 g6 g7 g8 g9 g10. gs = [g1, g2, g3, g4, g5, g6, g7, g8, g9, g10]"
    by (simp add: numeral_eq_Suc length_Suc_conv) blast
  with that show ?thesis by blast
qed

lemma py_float_numeric:
  assumes "py_float w = Some v"
  shows "numeric_text w"
proof -
  obtain sgn body where sb: "(case w of [] \<Rightarrow> (1::real, w)
      | c # r \<Rightarrow> if c = CHR ''-'' then (- 1, r) else (1, w)) = (sgn, body)"
    by (cases "(case w of [] \<Rightarrow> (1::real, w)
      | c # r \<Rightarrow> if c = CHR ''-'' then (- 1, r) else (1, w))") auto
  have w: "w = body \<or> w = CHR ''-'' # body"
    using sb by (auto split: list.splits if_splits)
  let ?ip = "takeWhile is_digit body" and ?rest = "dropWhile is_digit body"
  have body: "body = ?ip @ ?rest" by simp
  have ip: "list_all cls_num ?ip"
    by (auto simp: list_all_iff cls_num_def dest: set_takeWhileD)
  from assms sb have r: "(case ?rest of
           [] \<Rightarrow> if ?ip = [] then None else Some (sgn * real (dec ?ip))
         | c # fp \<Rightarrow>
             if c = CHR ''.'' \<and> list_all is_digit fp \<and> (?ip \<noteq> [] \<or> fp \<noteq> [])
             then Some (sgn * (real (dec ?ip) + real (dec fp) / 10 ^ length fp))
             else None) = Some v"
    by (simp add: py_float_def Let_def)
  have "body \<noteq> [] \<and> list_all cls_num ?rest"
  proof (cases ?rest)
    case Nil
    with r have "?ip \<noteq> []" by (auto split: if_splits)
    then have "body \<noteq> []" by auto
    then show ?thesis unfolding Nil by simp
  next
    case (Cons c fp)
    with r have "c = CHR ''.''" "list_all is_digit fp" by (auto split: if_splits)
    then have "list_all cls_num (c # fp)" by (auto simp: list_all_iff cls_num_def)
    moreover have "body \<noteq> []" using Cons by auto
    ultimately show ?thesis using Cons by simp
  qed
  then have ne: "body \<noteq> []" and rest: "list_all cls_num ?rest" by simp_all
  have "list_all cls_num (?ip @ ?rest)"
    using ip rest by (simp only: list_all_append simp_thms)
  then have "list_all cls_num body" by simp
  with ne have "body \<noteq> []" "list_all cls_num body" by simp_all
  with w show ?thesis
    by (auto simp: numeric_text_def cls_num_def)
qed

lemma search_wire:
  assumes "fits patron [p, t, mv, sh, f, m, esd, estado, relief, purge]"
  shows "re_search patron (wire_line (p, t, mv, sh) (f, m, esd, estado, relief, purge))
         = Some [p, t, mv, sh, f, m, esd, estado, relief, purge]"
  unfolding wire_line_build
  by (rule re_search_here) (rule match_here_complete[OF delimited_patron assms])

lemma parse_wire:
  assumes "fits patron [p, t, mv, sh, f, m, esd, estado, relief, purge]"
  shows "parse_data (wire_line (p, t, mv, sh) (f, m, esd, estado, relief, purge)) =
     (case py_float p of None \<Rightarrow> None | Some vp \<Rightarrow>
       (case py_float t of None \<Rightarrow> None | Some vt \<Rightarrow>
         (case py_float mv of None \<Rightarrow> None | Some vmv \<Rightarrow>
           (case py_float sh of None \<Rightarrow> None | Some vsh \<Rightarrow>
              Some \<lparr>P = vp, T = vt, MV = vmv, SH = vsh, F = f, M = m, ESD = esd,
                    ESTADO = estado, RELIEF = relief, PURGE = purge\<rparr>))))"
  unfolding parse_data_def search_wire[OF assms] by simp

lemma parse_data_sound:
  assumes "parse_data line = Some smp"
  shows "\<exists>pre suf p t mv sh.
           line = pre @ wire_line (p, t, mv, sh)
                          (F smp, M smp, ESD smp, ESTADO smp, RELIEF smp, PURGE smp) @ suf
           \<and> py_float p = Some (P smp) \<and> py_float t = Some (T smp)
           \<and> py_float mv = Some (MV smp) \<and> py_float sh = Some (SH smp)
           \<and> token (F smp) \<and> token (M smp) \<and> token (ESD smp) \<and> state_text (ESTADO smp)
           \<and> token (RELIEF smp) \<and> token (PURGE smp)"
proof -
  from assms obtain gs where rs: "re_search patron line = Some gs"
    by (auto simp: parse_data_def split: option.splits)
  from re_search_sound[OF rs] obtain pre suf where ft: "fits patron gs"
    and ln: "line = pre @ build patron gs @ suf"
    by blast
  from fits_patron_length[OF ft] obtain g1 g2 g3 g4 g5 g6 g7 g8 g9 g10
    where gs: "gs = [g1, g2, g3, g4, g5, g6, g7, g8, g9, g10]" by blast
  from assms rs gs obtain vp vt vmv vsh where
    fl: "py_float g1 = Some vp" "py_float g2 = Some vt" "py_float g3 = Some vmv"
      "py_float g4 = Some vsh"
    and smp: "smp = \<lparr>P = vp, T = vt, MV = vmv, SH = vsh, F = g5, M = g6, ESD = g7,
                    ESTADO = g8, RELIEF = g9, PURGE = g10\<rparr>"
    by (auto simp: parse_data_def split: option.splits)
  have tk: "token g5" "token g6" "token g7" "state_text g8" "token g9" "token g10"
    using ft unfolding gs fits_patron by simp_all
  have "line = pre @ wire_line (g1, g2, g3, g4) (g5, g6, g7, g8, g9, g10) @ suf"
    unfolding wire_line_build using ln gs by simp
  with fl tk show ?thesis
    unfolding smp by (simp only: sample.simps) blast
qed









lemma inserted_sorted:
  assumes "cache_ok s" and "sorted (map clock evs)"
    and "\<forall>u. last_update_time s = Some u \<longrightarrow> (\<forall>e\<in>set evs. u \<le> clock e)"
  shows "sorted (map fst (inserted s evs))
         \<and> (\<forall>f u. first_data_time s = Some f \<longrightarrow> last_update_time s = Some u \<longrightarrow>
               (\<forall>pt\<in>set (inserted s evs). u - f \<le> fst pt))"
  using assms
proof (induction evs arbitrary: s)
  case Nil
  show ?case by simp
next
  case (Cons ev evs)
  have later: "\<forall>e\<in>set evs. clock ev \<le> clock e" and srt: "sorted (map clock evs)"
    using Cons.prems(2) by simp_all
  show ?case
  proof (cases ev)
    case (Recv d now)
    let ?s' = "receive_data s d now"
    let ?f' = "case first_data_time s of None \<Rightarrow> now | Some f \<Rightarrow> f"
    have IH: "sorted (map fst (inserted ?s' evs))
              \<and> (\<forall>pt\<in>set (inserted ?s' evs). now - ?f' \<le> fst pt)"
      using Cons.IH[of ?s'] srt later Recv
      by (simp add: cache_ok_receive_data receive_data_fields)
    have pt: "fst (recv_point s d now) = now - ?f'"
      by (simp add: recv_point_def)
    have bound: "u - f \<le> now - ?f'"
      if "first_data_time s = Some f" "last_update_time s = Some u" for f u
      using that Cons.prems(3) Recv by simp
    have c1: "sorted (map fst (inserted s (ev # evs)))"
      using IH pt Recv by simp
    have c2: "u - f \<le> fst q"
      if "first_data_time s = Some f" "last_update_time s = Some u"
        "q \<in> set (inserted s (ev # evs))" for f u q
    proof -
      from that(3) Recv have "q = recv_point s d now \<or> q \<in> set (inserted ?s' evs)"
        by simp
      then show ?thesis
      proof
        assume "q = recv_point s d now"
        with bound[OF that(1,2)] pt show ?thesis by simp
      next
        assume "q \<in> set (inserted ?s' evs)"
        with IH have "now - ?f' \<le> fst q" by blast
        with bound[OF that(1,2)] show ?thesis by linarith
      qed
    qed
    show ?thesis
      using c1 c2 by blast
  next
    case (Tick now)
    let ?s' = "fst (update_plots s now)"
    note tf = tick_fields[OF Cons.prems(1), of now]
    have ok': "cache_ok ?s'" by (rule cache_ok_update_plots[OF Cons.prems(1)])
    show ?thesis
    proof (cases rule: tick_points_cases[of s now])
      case none
      have "\<forall>u. last_update_time ?s' = Some u \<longrightarrow> (\<forall>e\<in>set evs. u \<le> clock e)"
        using Cons.prems(3) by (simp add: tf tick_time_Nil[OF none])
      from Cons.IH[OF ok' srt this] show ?thesis
        using Tick none by (simp add: tf tick_time_Nil[OF none])
    next
      case (held f u p t)
      let ?n = "nat \<lfloor>(now - u) / interval_s\<rfloor>"
      let ?u' = "if tick_points s now = [] then u else u + real ?n * interval_s"
      have tt: "tick_time s now = Some ?u'"
        using held(2) by (simp add: tick_time_def)
      have u'_ge: "u \<le> ?u'" using interval_pos by simp
      have u'_le: "\<forall>e\<in>set evs. ?u' \<le> clock e"
      proof (cases "tick_points s now = []")
        case True
        with Cons.prems(3) held(2) show ?thesis by simp
      next
        case False
        from tick_time_le(2)[OF held(2) False] later Tick False show ?thesis
          by fastforce
      qed
      have IH: "sorted (map fst (inserted ?s' evs))
                \<and> (\<forall>pt\<in>set (inserted ?s' evs). ?u' - f \<le> fst pt)"
        using Cons.IH[OF ok' srt] u'_le held(1) by (simp add: tf tt)
      have top: "fst pt \<le> ?u' - f" if "pt \<in> set (tick_points s now)" for pt
      proof -
        from that have ne: "tick_points s now \<noteq> []" by auto
        from that held(3) held_points_bounds(2) have "fst pt \<le> u - f + real ?n * interval_s"
          by metis
        with ne show ?thesis by simp
      qed
      have low: "u - f \<le> fst pt" if "pt \<in> set (tick_points s now)" for pt
        using that held(3) held_points_bounds(1) by (metis less_imp_le)
      have "sorted_wrt (<) (map fst (tick_points s now))"
        unfolding held(3) by (rule held_points_sorted)
      then have s1: "sorted (map fst (tick_points s now))"
        by (rule strict_sorted_imp_sorted)
      have cross: "fst a \<le> fst b"
        if "a \<in> set (tick_points s now)" "b \<in> set (inserted ?s' evs)" for a b
        using top[OF that(1)] IH that(2) by fastforce
      have bnd: "u - f \<le> fst pt" if "pt \<in> set (inserted ?s' evs)" for pt
      proof -
        from IH that have "?u' - f \<le> fst pt" by blast
        with u'_ge show ?thesis by linarith
      qed
      show ?thesis
        using Tick IH s1 cross low bnd held(1,2)
        by (auto simp: sorted_append)
    qed
  qed
qed

lemma inserted_init_sorted:
  "sorted (map clock evs) \<Longrightarrow> sorted (map fst (inserted init_app evs))"
  using inserted_sorted[OF cache_ok_init, of evs] by (simp add: init_app_def)

text \<open>
  C2, as amended. Take any run from the initial state and let a tick follow it and draw a
  frame. If at least \<^const>\<open>MAX_POINTS\<close> points have been inserted in all, the frame is
  the concatenation of the cells \<open>[data_index mod MAX_POINTS ..)\<close> and
  \<open>[0 .. data_index mod MAX_POINTS)\<close> of each array, and it holds exactly the last
  \<^const>\<open>MAX_POINTS\<close> inserted points in write order, without gap or repetition. Its
  relative times never decrease provided the clock readings of the run's calls never do;
  they need not increase strictly.
\<close>

theorem ring_invariant:
  assumes "update_plots (run_events init_app evs) now = (s', Some fr)"
    and "MAX_POINTS \<le> data_index s'"
  shows "data_index s' = length (inserted init_app (evs @ [Tick now]))
         \<and> xs fr = drop (data_index s' mod MAX_POINTS) (x_data s')
                     @ take (data_index s' mod MAX_POINTS) (x_data s')
         \<and> y1s fr = drop (data_index s' mod MAX_POINTS) (y1_data s')
                      @ take (data_index s' mod MAX_POINTS) (y1_data s')
         \<and> y2s fr = drop (data_index s' mod MAX_POINTS) (y2_data s')
                      @ take (data_index s' mod MAX_POINTS) (y2_data s')
         \<and> (xs fr, y1s fr, y2s fr)
             = series (drop (data_index s' - MAX_POINTS) (inserted init_app (evs @ [Tick now])))
         \<and> length (xs fr) = MAX_POINTS
         \<and> (sorted (map clock (evs @ [Tick now])) \<longrightarrow> sorted (xs fr))"
proof -
  let ?ins = "inserted init_app (evs @ [Tick now])"
  note tf = tick_frame[OF assms(1)]
  note ta = tick_after_run[OF assms(1)]
  from ta(2) have fr: "fr = frame_of s'" by simp
  have sn: "(xs fr, y1s fr, y2s fr) = snapshot s'"
    unfolding fr by (rule frame_of_fields)
  have a: "data_index s' = length ?ins" by (rule tf(1))
  have ser: "(xs fr, y1s fr, y2s fr) = series (drop (data_index s' - MAX_POINTS) ?ins)"
    using sn tf(3) assms(2) by simp
  then have x: "xs fr = map fst (drop (data_index s' - MAX_POINTS) ?ins)"
    by (simp add: series_def)
  have len: "length (xs fr) = MAX_POINTS"
    unfolding x using a assms(2) by simp
  have srt: "sorted (xs fr)" if "sorted (map clock (evs @ [Tick now]))"
  proof -
    from that have "sorted (map fst ?ins)" by (rule inserted_init_sorted)
    then have "sorted (drop (data_index s' - MAX_POINTS) (map fst ?ins))"
      by (rule sorted_wrt_drop)
    then show ?thesis unfolding x by (simp add: drop_map)
  qed
  from sn snapshot_full_def[OF assms(2)] a ser len srt show ?thesis by simp
qed

text \<open>
  A run that wraps: one sample at clock 0 and a tick at 25.05 s insert 251 points, so
  the write index stands at cell 51 and the frame starts there.
\<close>

theorem ring_invariant_witness:
  "data_index (fst (update_plots (run_events init_app [Recv example_sample 0]) 25.05))
     = 251
   \<and> data_index (fst (update_plots (run_events init_app [Recv example_sample 0]) 25.05))
       mod MAX_POINTS = 51
   \<and> snd (update_plots (run_events init_app [Recv example_sample 0]) 25.05)
       = Some (frame_of (fst (update_plots (run_events init_app [Recv example_sample 0])
                                 25.05)))
   \<and> xs (frame_of (fst (update_plots (run_events init_app [Recv example_sample 0]) 25.05)))
       = drop 51 (x_data (fst (update_plots (run_events init_app [Recv example_sample 0])
                                 25.05)))
         @ take 51 (x_data (fst (update_plots (run_events init_app [Recv example_sample 0])
                                   25.05)))
   \<and> (xs (frame_of (fst (update_plots (run_events init_app [Recv example_sample 0]) 25.05))),
       y1s (frame_of (fst (update_plots (run_events init_app [Recv example_sample 0]) 25.05))),
       y2s (frame_of (fst (update_plots (run_events init_app [Recv example_sample 0]) 25.05))))
      = series (drop 51 (inserted init_app [Recv example_sample 0, Tick 25.05]))
   \<and> length (xs (frame_of (fst (update_plots (run_events init_app [Recv example_sample 0])
                                   25.05)))) = MAX_POINTS
   \<and> sorted (xs (frame_of (fst (update_plots (run_events init_app [Recv example_sample 0])
                                   25.05))))"
proof -
  let ?evs = "[Recv example_sample 0]"
  let ?U = "update_plots (run_events init_app ?evs) 25.05"
  have tp: "length (tick_points (receive_data init_app example_sample 0) 25.05) = 250"
    by (simp add: tick_points_def example_received held_points_def interval_s_def
          DATA_COLLECTION_INTERVAL_MS_def)
  have ok: "cache_ok (run_events init_app ?evs)" by (rule cache_ok_run[OF cache_ok_init])
  have run: "run_events init_app ?evs = receive_data init_app example_sample 0"
    by simp
  have di: "data_index (fst ?U) = 251"
    using tick_fields(4)[OF ok, of "25.05"] unfolding run tp example_received(6)
    by simp
  have md: "data_index (fst ?U) mod MAX_POINTS = 51" "data_index (fst ?U) - MAX_POINTS = 51"
    unfolding di by (simp_all add: MAX_POINTS_def)
  have drawn: "snd ?U = Some (frame_of (fst ?U))"
    by (rule tick_drawn) (simp add: example_received)
  have U: "?U = (fst ?U, Some (frame_of (fst ?U)))"
    using drawn by (metis prod.collapse)
  have full: "MAX_POINTS \<le> data_index (fst ?U)" unfolding di by (simp add: MAX_POINTS_def)
  have clk: "sorted (map clock (?evs @ [Tick 25.05]))" by simp
  have app: "?evs @ [Tick 25.05] = [Recv example_sample 0, Tick 25.05]" by simp
  from ring_invariant[OF U full] clk
  have "xs (frame_of (fst ?U)) = drop 51 (x_data (fst ?U)) @ take 51 (x_data (fst ?U))"
    and "(xs (frame_of (fst ?U)), y1s (frame_of (fst ?U)), y2s (frame_of (fst ?U)))
         = series (drop 51 (inserted init_app [Recv example_sample 0, Tick 25.05]))"
    and "length (xs (frame_of (fst ?U))) = MAX_POINTS"
    and "sorted (xs (frame_of (fst ?U)))"
    unfolding md app by blast+
  with di md(1) drawn show ?thesis by blast
qed

text \<open>
  The order of the relative times is not strict: two samples received at the same clock
  reading, then 19.85 s of silence, fill the ring with 200 points whose first two
  relative times are both 0.
\<close>

theorem ring_invariant_counterexample:
  "MAX_POINTS \<le> data_index
      (fst (update_plots
              (run_events init_app [Recv example_sample 0, Recv example_sample 0]) 19.85))
   \<and> snd (update_plots
            (run_events init_app [Recv example_sample 0, Recv example_sample 0]) 19.85)
       = Some (frame_of (fst (update_plots
            (run_events init_app [Recv example_sample 0, Recv example_sample 0]) 19.85)))
   \<and> \<not> sorted_wrt (<)
        (xs (frame_of (fst (update_plots
            (run_events init_app [Recv example_sample 0, Recv example_sample 0]) 19.85))))"
proof -
  let ?evs = "[Recv example_sample 0, Recv example_sample 0]"
  let ?s2 = "receive_data (receive_data init_app example_sample 0) example_sample 0"
  let ?U = "update_plots (run_events init_app ?evs) 19.85"
  have run: "run_events init_app ?evs = ?s2" by simp
  have f2: "first_data_time ?s2 = Some 0" "last_update_time ?s2 = Some 0"
    "last_p ?s2 = Some 300.5" "last_t ?s2 = Some 150.2" "plot_dirty ?s2"
    by (simp_all add: example_received2)
  have tp: "length (tick_points ?s2 19.85) = 198"
    by (simp add: tick_points_def f2 held_points_def interval_s_def
          DATA_COLLECTION_INTERVAL_MS_def)
  have U: "?U = (fst ?U, snd ?U)" by simp
  note tf = tick_frame[OF U]
  have "inserted init_app (?evs @ [Tick 19.85])
        = recv_point init_app example_sample 0
          # recv_point (receive_data init_app example_sample 0) example_sample 0
          # tick_points ?s2 19.85"
    by (simp only: append.simps inserted.simps append_Nil2)
  then have ins: "inserted init_app (?evs @ [Tick 19.85])
             = (0, 300.5, 150.2) # (0, 300.5, 150.2) # tick_points ?s2 19.85"
    unfolding example_recv_point example_recv_point2 by simp
  have di: "data_index (fst ?U) = 200"
    unfolding tf(1) ins list.size length_Cons tp by simp
  have full: "MAX_POINTS \<le> data_index (fst ?U)"
    unfolding di by (simp add: MAX_POINTS_def)
  have drawn: "snd ?U = Some (frame_of (fst ?U))"
    by (rule tick_drawn) (simp add: f2)
  have "snapshot (fst ?U) = series (inserted init_app (?evs @ [Tick 19.85]))"
    using tf(3) di by (simp add: MAX_POINTS_def)
  then have "xs (frame_of (fst ?U)) = 0 # 0 # map fst (tick_points ?s2 19.85)"
    using frame_of_fields[of "fst ?U"] unfolding ins by (simp add: series_def)
  then have "\<not> sorted_wrt (<) (xs (frame_of (fst ?U)))" by simp
  with full drawn show ?thesis by blast
qed

text \<open>
  C5, as amended. In a run from the initial state whose calls read clock values that
  never decrease, the arrays hold the result of writing the inserted points in order,
  and the relative times of the inserted points, real and synthetic, never decrease.
  They need not increase strictly: two points can carry the same relative time.
\<close>

theorem relative_time_increasing:
  assumes "sorted (map clock evs)"
  shows "ring (run_events init_app evs) = ring (foldl put init_app (inserted init_app evs))
         \<and> sorted (map fst (inserted init_app evs))"
proof -
  have s: "sorted (map fst (inserted init_app evs))"
    using assms by (rule inserted_init_sorted)
  with ring_run[OF cache_ok_init, of evs] show ?thesis by simp
qed

theorem relative_time_increasing_witness:
  "sorted (map fst (inserted init_app
      [Recv example_sample 1000, Tick 1000.35, Recv example_sample 1000.4,
       Recv example_sample 1000.4]))"
proof -
  have "sorted (map clock
          [Recv example_sample 1000, Tick 1000.35, Recv example_sample 1000.4,
           Recv example_sample 1000.4])"
    by simp
  from relative_time_increasing[OF this] show ?thesis by blast
qed

text \<open>
  Two samples received at the same reading of \<^verbatim>\<open>time.time()\<close> get the same relative
  time: cells 0 and 1 of \<open>x_data\<close> are equal.
\<close>

theorem relative_time_increasing_counterexample:
  "\<not> sorted_wrt (<) (map fst (inserted init_app
        [Recv example_sample 1000, Recv example_sample 1000]))
   \<and> data_index (run_events init_app
        [Recv example_sample 1000, Recv example_sample 1000]) = 2
   \<and> x_data (run_events init_app [Recv example_sample 1000, Recv example_sample 1000]) ! 0
     = x_data (run_events init_app [Recv example_sample 1000, Recv example_sample 1000]) ! 1"
proof -
  let ?s1 = "receive_data init_app example_sample 1000"
  have a: "inserted init_app [Recv example_sample 1000, Recv example_sample 1000]
           = [(0, 300.5, 150.2), (0, 300.5, 150.2)]"
    by (simp add: example_recv_point example_recv_point2)
  have b: "data_index (run_events init_app
             [Recv example_sample 1000, Recv example_sample 1000]) = 2"
    by (simp add: example_received2)
  have c: "x_data (run_events init_app [Recv example_sample 1000, Recv example_sample 1000])
           = (replicate MAX_POINTS 0)[0 := 0, 1 := 0]"
    by (simp add: receive_data_def init_app_def Let_def MAX_POINTS_def)
  show ?thesis
    unfolding a c using b by (simp add: MAX_POINTS_def)
qed

lemma match_here_context:
  assumes "delimited its" and "fits its gs"
    and "\<And>c. its \<noteq> [] \<Longrightarrow> last its = Grp c \<Longrightarrow> suf = [] \<or> \<not> c (hd suf)"
  shows "match_here its (build its gs @ suf) = Some gs"
  using assms
proof (induction its gs rule: build.induct)
  case (1 gs)
  then show ?case by simp
next
  case (2 l its gs)
  have "match_here its (build its gs @ suf) = Some gs"
  proof (rule "2.IH")
    show "delimited its" using "2.prems"(1) by simp
    show "fits its gs" using "2.prems"(2) by simp
    show "suf = [] \<or> \<not> c (hd suf)" if "its \<noteq> []" "last its = Grp c" for c
      using "2.prems"(3)[of c] that by simp
  qed
  then show ?case
    using match_here_Lit[of l its "build its gs @ suf"] by simp
next
  case (3 c its)
  then show ?case by simp
next
  case (4 c its g gs)
  from "4.prems" have d: "delimited its" by (auto dest: delimited_tail)
  from "4.prems" have f: "g \<noteq> []" "list_all c g" "fits its gs" by simp_all
  have m: "match_here its (build its gs @ suf) = Some gs"
  proof (rule "4.IH"[OF d f(3)])
    show "suf = [] \<or> \<not> c' (hd suf)" if "its \<noteq> []" "last its = Grp c'" for c'
      using "4.prems"(3)[of c'] that by simp
  qed
  have h: "build its gs @ suf = [] \<or> \<not> c (hd (build its gs @ suf))"
  proof (cases its)
    case Nil
    with "4.prems"(3)[of c] show ?thesis by simp
  next
    case (Cons it its')
    with "4.prems"(1) obtain e l where it: "it = Lit (e # l)" and e: "\<not> c e"
      by (cases "(Grp c # its)" rule: delimited.cases) auto
    show ?thesis unfolding Cons it using e by simp
  qed
  show ?case
    using match_here_Grp[OF f(1,2) h m] by simp
qed

lemma re_search_skip:
  assumes "CHR ''P'' \<notin> set pre"
  shows "re_search patron (pre @ s) = re_search patron s"
  using assms
proof (induction pre)
  case Nil
  show ?case by simp
next
  case (Cons c pre)
  then have "c \<noteq> CHR ''P''" by auto
  then have "match_here patron (c # pre @ s) = None"
    by (simp add: patron_def)
  with Cons show ?case by simp
qed

lemma search_wire_context:
  assumes "fits patron [p, t, mv, sh, f, m, esd, estado, relief, purge]"
    and "CHR ''P'' \<notin> set pre" and "suf = [] \<or> \<not> is_word (hd suf)"
  shows "re_search patron (pre @ wire_line (p, t, mv, sh) (f, m, esd, estado, relief, purge)
                             @ suf)
         = Some [p, t, mv, sh, f, m, esd, estado, relief, purge]"
proof -
  have "match_here patron (build patron [p, t, mv, sh, f, m, esd, estado, relief, purge] @ suf)
        = Some [p, t, mv, sh, f, m, esd, estado, relief, purge]"
  proof (rule match_here_context[OF delimited_patron assms(1)])
    show "suf = [] \<or> \<not> c (hd suf)" if "patron \<noteq> []" "last patron = Grp c" for c
      using that(2) assms(3) by (simp add: patron_def)
  qed
  then show ?thesis
    unfolding re_search_skip[OF assms(2)] wire_line_build by (rule re_search_here)
qed

lemma parse_wire_context:
  assumes "fits patron [p, t, mv, sh, f, m, esd, estado, relief, purge]"
    and "CHR ''P'' \<notin> set pre" and "suf = [] \<or> \<not> is_word (hd suf)"
  shows "parse_data (pre @ wire_line (p, t, mv, sh) (f, m, esd, estado, relief, purge) @ suf) =
     (case py_float p of None \<Rightarrow> None | Some vp \<Rightarrow>
       (case py_float t of None \<Rightarrow> None | Some vt \<Rightarrow>
         (case py_float mv of None \<Rightarrow> None | Some vmv \<Rightarrow>
           (case py_float sh of None \<Rightarrow> None | Some vsh \<Rightarrow>
              Some \<lparr>P = vp, T = vt, MV = vmv, SH = vsh, F = f, M = m, ESD = esd,
                    ESTADO = estado, RELIEF = relief, PURGE = purge\<rparr>))))"
  unfolding parse_data_def search_wire_context[OF assms] by simp

text \<open>
  C1, as amended. For every line that is a well-formed instance of the ten-field
  grammar, \<^verbatim>\<open>parse_data\<close> returns the record whose four numeric fields are the line's
  numbers converted by \<^verbatim>\<open>float\<close> and whose six textual fields are the line's values
  verbatim. A line in the shape of the grammar with a numeric value that \<^verbatim>\<open>float\<close>
  rejects yields no sample. Both results are the same when the instance is preceded by
  text without the letter \<^verbatim>\<open>P\<close> and followed by nothing or by text that starts with a
  character outside \<^verbatim>\<open>\w\<close>, such as a comma and further fields. Whenever a sample is
  returned, the line contains a well-formed instance as a contiguous part, with exactly
  the returned values; so every line without such a part (fields missing or out of
  order) yields no sample. The function is total: it never raises.
\<close>

theorem parser_round_trip:
  "(py_float p = Some vp \<and> py_float t = Some vt \<and> py_float mv = Some vmv
      \<and> py_float sh = Some vsh \<and> token f \<and> token m \<and> token esd \<and> state_text estado
      \<and> token relief \<and> token purge
      \<and> CHR ''P'' \<notin> set pre \<and> (suf = [] \<or> \<not> is_word (hd suf)) \<longrightarrow>
      parse_data (pre @ wire_line (p, t, mv, sh) (f, m, esd, estado, relief, purge) @ suf)
      = Some \<lparr>P = vp, T = vt, MV = vmv, SH = vsh, F = f, M = m, ESD = esd,
              ESTADO = estado, RELIEF = relief, PURGE = purge\<rparr>)
   \<and> (numeric_text p \<and> numeric_text t \<and> numeric_text mv \<and> numeric_text sh
      \<and> token f \<and> token m \<and> token esd \<and> state_text estado \<and> token relief \<and> token purge
      \<and> (py_float p = None \<or> py_float t = None \<or> py_float mv = None \<or> py_float sh = None)
      \<and> CHR ''P'' \<notin> set pre \<and> (suf = [] \<or> \<not> is_word (hd suf)) \<longrightarrow>
      parse_data (pre @ wire_line (p, t, mv, sh) (f, m, esd, estado, relief, purge) @ suf)
      = None)
   \<and> (parse_data line = Some smp \<longrightarrow>
        (\<exists>pre' suf' p' t' mv' sh'.
           line = pre' @ wire_line (p', t', mv', sh')
                          (F smp, M smp, ESD smp, ESTADO smp, RELIEF smp, PURGE smp) @ suf'
           \<and> py_float p' = Some (P smp) \<and> py_float t' = Some (T smp)
           \<and> py_float mv' = Some (MV smp) \<and> py_float sh' = Some (SH smp)
           \<and> token (F smp) \<and> token (M smp) \<and> token (ESD smp) \<and> state_text (ESTADO smp)
           \<and> token (RELIEF smp) \<and> token (PURGE smp)))"
proof -
  have a: "parse_data (pre @ wire_line (p, t, mv, sh) (f, m, esd, estado, relief, purge) @ suf)
      = Some \<lparr>P = vp, T = vt, MV = vmv, SH = vsh, F = f, M = m, ESD = esd,
              ESTADO = estado, RELIEF = relief, PURGE = purge\<rparr>"
    if h: "py_float p = Some vp" "py_float t = Some vt" "py_float mv = Some vmv"
      "py_float sh = Some vsh" "token f" "token m" "token esd" "state_text estado"
      "token relief" "token purge"
      and ctx: "CHR ''P'' \<notin> set pre" "suf = [] \<or> \<not> is_word (hd suf)"
  proof -
    have "fits patron [p, t, mv, sh, f, m, esd, estado, relief, purge]"
      unfolding fits_patron using h py_float_numeric by blast
    from parse_wire_context[OF this ctx] h(1-4) show ?thesis by simp
  qed
  have b: "parse_data (pre @ wire_line (p, t, mv, sh) (f, m, esd, estado, relief, purge) @ suf)
           = None"
    if h: "numeric_text p" "numeric_text t" "numeric_text mv" "numeric_text sh"
      "token f" "token m" "token esd" "state_text estado" "token relief" "token purge"
      and bad: "py_float p = None \<or> py_float t = None \<or> py_float mv = None
                \<or> py_float sh = None"
      and ctx: "CHR ''P'' \<notin> set pre" "suf = [] \<or> \<not> is_word (hd suf)"
  proof -
    have "fits patron [p, t, mv, sh, f, m, esd, estado, relief, purge]"
      unfolding fits_patron using h by blast
    from parse_wire_context[OF this ctx] bad show ?thesis by (auto split: option.splits)
  qed
  show ?thesis
  proof (intro conjI impI, goal_cases)
    case 1
    then show ?case by (elim conjE) (rule a)
  next
    case 2
    then show ?case by (elim conjE) (rule b)
  next
    case 3
    then show ?case by (rule parse_data_sound)
  qed
qed

theorem parser_round_trip_witness:
  "parse_data (wire_line (''300.5'', ''150.2'', ''45.0'', ''10.0'')
                 (''A'', ''AUTO'', ''Normal'', ''Operando Normal'', ''Cerrada'', ''Cerrada''))
     = Some example_sample
   \<and> parse_data (''T:1,'' @ wire_line (''300.5'', ''150.2'', ''45.0'', ''10.0'')
                 (''A'', ''AUTO'', ''Normal'', ''Operando Normal'', ''Cerrada'', ''Cerrada'')
                 @ '',EXTRA:1'')
     = Some example_sample
   \<and> parse_data (wire_line (''1.2.3'', ''150.2'', ''45.0'', ''10.0'')
                 (''A'', ''AUTO'', ''Normal'', ''Operando Normal'', ''Cerrada'', ''Cerrada''))
     = None"
proof -
  have fl: "py_float ''300.5'' = Some 300.5" "py_float ''150.2'' = Some 150.2"
    "py_float ''45.0'' = Some 45" "py_float ''10.0'' = Some 10"
    by code_simp+
  have bad: "py_float ''1.2.3'' = None" by code_simp
  have nm: "numeric_text ''1.2.3''" "numeric_text ''150.2''" "numeric_text ''45.0''"
    "numeric_text ''10.0''"
    by code_simp+
  have tk: "token ''A''" "token ''AUTO''" "token ''Normal''" "state_text ''Operando Normal''"
    "token ''Cerrada''"
    by code_simp+
  have ctx: "CHR ''P'' \<notin> set ''T:1,''" "\<not> is_word (hd '',EXTRA:1'')"
    "CHR ''P'' \<notin> set []"
    by code_simp+
  note w = parser_round_trip[where f = "''A''" and m = "''AUTO''" and esd = "''Normal''"
      and estado = "''Operando Normal''" and relief = "''Cerrada''" and purge = "''Cerrada''"
      and t = "''150.2''" and mv = "''45.0''" and sh = "''10.0''"]
  from w[where p = "''300.5''" and pre = "[]" and suf = "[]", THEN conjunct1] fl tk ctx(3)
  have a: "parse_data ([] @ wire_line (''300.5'', ''150.2'', ''45.0'', ''10.0'')
                 (''A'', ''AUTO'', ''Normal'', ''Operando Normal'', ''Cerrada'', ''Cerrada'')
                 @ [])
     = Some \<lparr>P = 300.5, T = 150.2, MV = 45, SH = 10, F = ''A'', M = ''AUTO'',
             ESD = ''Normal'', ESTADO = ''Operando Normal'', RELIEF = ''Cerrada'',
             PURGE = ''Cerrada''\<rparr>"
    by blast
  from w[where p = "''300.5''" and pre = "''T:1,''" and suf = "'',EXTRA:1''", THEN conjunct1]
    fl tk ctx(1,2)
  have c: "parse_data (''T:1,'' @ wire_line (''300.5'', ''150.2'', ''45.0'', ''10.0'')
                 (''A'', ''AUTO'', ''Normal'', ''Operando Normal'', ''Cerrada'', ''Cerrada'')
                 @ '',EXTRA:1'')
     = Some \<lparr>P = 300.5, T = 150.2, MV = 45, SH = 10, F = ''A'', M = ''AUTO'',
             ESD = ''Normal'', ESTADO = ''Operando Normal'', RELIEF = ''Cerrada'',
             PURGE = ''Cerrada''\<rparr>"
    by blast
  from w[where p = "''1.2.3''" and pre = "[]" and suf = "[]", THEN conjunct2, THEN conjunct1]
    nm tk bad ctx(3)
  have b: "parse_data ([] @ wire_line (''1.2.3'', ''150.2'', ''45.0'', ''10.0'')
                 (''A'', ''AUTO'', ''Normal'', ''Operando Normal'', ''Cerrada'', ''Cerrada'')
                 @ [])
     = None"
    by blast
  from a b c show ?thesis
    unfolding example_sample_def append_Nil append_Nil2 by blast
qed

text \<open>
  A line with an eleventh field after the ten of the grammar violates the field count
  and still yields a sample; so does a line with text in front of the first field.
\<close>

theorem parser_round_trip_counterexample:
  "length (split_commas (example_line @ '',EXTRA:1'')) = 11
   \<and> parse_data (example_line @ '',EXTRA:1'') = Some example_sample
   \<and> parse_data (''T:1,'' @ example_line) = Some example_sample"
  by code_simp

text \<open>
  The match is the leftmost one, and the last group is greedy: an earlier part in the
  grammar's shape with a bad number hides a good instance that follows it, and word
  characters after the \<^verbatim>\<open>PURGE\<close> value are taken into the value.
\<close>

lemma parse_data_leftmost:
  "parse_data (wire_line (''1.2.3'', ''150.2'', ''45.0'', ''10.0'')
                 (''A'', ''AUTO'', ''Normal'', ''Operando Normal'', ''Cerrada'', ''Cerrada'')
               @ '','' @ example_line) = None"
  "map_option PURGE (parse_data (example_line @ ''X'')) = Some ''CerradaX''"
  by code_simp+

end
